theory Spec2Isabelle
  imports Main "HOL-Library.Sublist"
begin

section \<open>Python values used by MonkeyProTest.py\<close>

text \<open>
  Strings are lists of characters. Exceptions are values; every constructor below is a
  subclass of Python's \<open>Exception\<close>, which is what process creation, stream decoding
  and attribute access raise. The string carried is what \<open>str(e)\<close> renders.
\<close>

datatype exn =
    CalledProcessError string
  | OSError string
  | UnicodeDecodeError string
  | AttributeError string
  | IndexError string
  | ValueError string

fun exn_str :: "exn \<Rightarrow> string" where
  "exn_str (CalledProcessError m) = m"
| "exn_str (OSError m) = m"
| "exn_str (UnicodeDecodeError m) = m"
| "exn_str (AttributeError m) = m"
| "exn_str (IndexError m) = m"
| "exn_str (ValueError m) = m"

subsection \<open>Formatting an int inside an f-string\<close>

definition digit_char :: "nat \<Rightarrow> char" where
  "digit_char d = ''0123456789'' ! d"

function str_nat :: "nat \<Rightarrow> string" where
  "str_nat n = (if n < 10 then [digit_char n] else str_nat (n div 10) @ [digit_char (n mod 10)])"
  by pat_completeness auto
termination
  by (relation "measure id") auto

declare str_nat.simps [simp del]

definition str_int :: "int \<Rightarrow> string" where
  "str_int i = (if i < 0 then CHR ''-'' # str_nat (nat (- i)) else str_nat (nat i))"

subsection \<open>The command string of line 269\<close>

text \<open>
  \<open>run_monkey_command\<close> starts by building \<open>cmd\<close> with one f-string; \<open>minutes\<close> and
  \<open>throttle\<close> are ints (docstring of \<open>execute_adb_command\<close>) and are rendered in decimal.
\<close>

definition monkey_cmd :: "string \<Rightarrow> string \<Rightarrow> string \<Rightarrow> int \<Rightarrow> int \<Rightarrow> string" where
  "monkey_cmd device class_path package_name minutes throttle =
     ''adb -s '' @ device @ '' shell CLASSPATH='' @ class_path
     @ '' exec app_process /system/bin com.android.commands.monkey.Monkey -p '' @ package_name
     @ '' --agent reuseq --running-minutes '' @ str_int minutes
     @ '' --throttle '' @ str_int throttle @ '' --pct-touch 30 -v -v''"

subsection \<open>range with a step, and slices\<close>

text \<open>
  \<open>range(i, stop, step)\<close> for a positive step, as the list it iterates over. Python
  raises ValueError for a zero step; the only caller passes \<open>batch_size = 4\<close>, and the
  model gives the empty list there.
\<close>

function range_step :: "nat \<Rightarrow> nat \<Rightarrow> nat \<Rightarrow> nat list" where
  "range_step i stop step =
     (if step = 0 \<or> stop \<le> i then [] else i # range_step (i + step) stop step)"
  by pat_completeness auto
termination
  by (relation "measure (\<lambda>(i, stop, step). stop - i)") auto

declare range_step.simps [simp del]

text \<open>\<open>xs[i:j]\<close> for \<open>0 \<le> i \<le> j\<close>: Python clamps both ends to the length.\<close>

definition py_slice :: "'a list \<Rightarrow> nat \<Rightarrow> nat \<Rightarrow> 'a list" where
  "py_slice xs i j = take (j - i) (drop i xs)"

definition batch_size :: nat where
  "batch_size = 4"

definition delay :: nat where
  "delay = 10"

text \<open>
  Lines 309-310: \<open>for i in range(0, len(packages), batch_size): batch = packages[i:i +
  batch_size]\<close>. Each iteration is the pair of its loop index and its batch.
\<close>

definition batches :: "'a list \<Rightarrow> (nat \<times> 'a list) list" where
  "batches packages =
     map (\<lambda>i. (i, py_slice packages i (i + batch_size)))
       (range_step 0 (length packages) batch_size)"

section \<open>Text helpers\<close>

text \<open>
  A \<open>str\<close> is modelled as a list of 8-bit characters, each standing for the code point
  of the same number; the line boundaries and white space of \<open>str.splitlines\<close> and
  \<open>str.strip\<close> are the ones below 256.
\<close>

definition is_space :: "char \<Rightarrow> bool" where
  "is_space c = (c \<in> set [CHR '' '', CHR 0x09, CHR 0x0A, CHR 0x0B, CHR 0x0C, CHR 0x0D,
                            CHR 0x1C, CHR 0x1D, CHR 0x1E, CHR 0x1F, CHR 0x85, CHR 0xA0])"

definition strip :: "string \<Rightarrow> string" where
  "strip s = rev (dropWhile is_space (rev (dropWhile is_space s)))"

definition is_linebreak :: "char \<Rightarrow> bool" where
  "is_linebreak c = (c \<in> set [CHR 0x0A, CHR 0x0B, CHR 0x0C, CHR 0x0D,
                                CHR 0x1C, CHR 0x1D, CHR 0x1E, CHR 0x85])"

text \<open>\<open>s.splitlines()\<close>: \<open>cur\<close> is the line read so far; CR LF is one boundary.\<close>

fun splitlines_from :: "string \<Rightarrow> string \<Rightarrow> string list" where
  "splitlines_from cur [] = (if cur = [] then [] else [cur])"
| "splitlines_from cur [c] = (if is_linebreak c then [cur] else [cur @ [c]])"
| "splitlines_from cur (c # d # cs) =
     (if c = CHR 0x0D \<and> d = CHR 0x0A then cur # splitlines_from [] cs
      else if is_linebreak c then cur # splitlines_from [] (d # cs)
      else splitlines_from (cur @ [c]) (d # cs))"

definition splitlines :: "string \<Rightarrow> string list" where
  "splitlines s = splitlines_from [] s"

text \<open>\<open>s.split(sep)\<close> for a one-character separator: empty fields are kept.\<close>

fun split_on :: "char \<Rightarrow> string \<Rightarrow> string list" where
  "split_on sep [] = [[]]"
| "split_on sep (c # cs) =
     (if c = sep then [] # split_on sep cs
      else (case split_on sep cs of
              [] \<Rightarrow> [[c]]
            | f # fs \<Rightarrow> (c # f) # fs))"

definition startswith :: "string \<Rightarrow> string \<Rightarrow> bool" where
  "startswith s p = (take (length p) s = p)"

text \<open>\<open>xs[i]\<close> for \<open>i \<ge> 0\<close> raises IndexError out of range.\<close>

definition py_index :: "'a list \<Rightarrow> nat \<Rightarrow> exn + 'a" where
  "py_index xs i =
     (if i < length xs then Inr (xs ! i) else Inl (IndexError ''list index out of range''))"

text \<open>A list comprehension whose element expression may raise: the first raise wins.\<close>

fun collect :: "(exn + 'a) list \<Rightarrow> exn + 'a list" where
  "collect [] = Inr []"
| "collect (r # rs) =
     (case r of
        Inl e \<Rightarrow> Inl e
      | Inr x \<Rightarrow> (case collect rs of Inl e \<Rightarrow> Inl e | Inr xs \<Rightarrow> Inr (x # xs)))"

section \<open>The log and the outside world\<close>

text \<open>
  A log call is a level and a message. The messages of the source are templates with
  interpolated values; each template is a constructor carrying those values:
  \<^item> \<open>ExecCommand cmd\<close>: line 271, the command about to run;
  \<^item> \<open>RunParams minutes throttle\<close>: line 272, the running time and the throttle (the
    source prints \<open>throttle / 1000\<close>);
  \<^item> \<open>OutputLine l\<close>: line 278, one stripped line of the child's output;
  \<^item> \<open>PackageFailed package text\<close>: line 286, the package ran into an error, with the
    error text read from the child;
  \<^item> \<open>PackageDone package\<close>: line 288, the package finished;
  \<^item> \<open>CommandFailed e\<close>: line 291, the handler of CalledProcessError;
  \<^item> \<open>UnknownError e\<close>: line 293, the handler of every other Exception;
  \<^item> \<open>PackageCount n\<close>: line 304, how many packages the device has;
  \<^item> \<open>RunningPackage package\<close>: line 312, the package is being run.
\<close>

datatype level = INFO | ERROR

datatype message =
    ExecCommand string
  | RunParams int int
  | OutputLine string
  | PackageFailed string string
  | PackageDone string
  | CommandFailed string
  | UnknownError string
  | PackageCount nat
  | RunningPackage string

type_synonym entry = "level \<times> message"

text \<open>
  What one child process does, as \<open>subprocess.Popen\<close> and its streams show it:
  \<open>spawn_error\<close> is the exception \<open>Popen\<close> raises, if any; \<open>out_lines\<close> are the lines
  that iterating \<open>process.stdout\<close> yields; \<open>read_error\<close> is the exception that
  iteration raises after them, if any; \<open>returncode\<close> is the exit status after
  \<open>wait()\<close>; \<open>err_text\<close> is what the child writes to its standard error when that is a
  pipe of its own.
\<close>

record process =
  spawn_error :: "exn option"
  out_lines :: "string list"
  read_error :: "exn option"
  returncode :: int
  err_text :: string

text \<open>
  The \<open>stderr\<close> argument of \<open>Popen\<close> and the \<open>stderr\<close> attribute of the object it
  returns: a readable stream for \<open>PIPE\<close>, and \<open>None\<close> otherwise (the child's standard
  error then goes into its standard output).
\<close>

datatype stderr_arg = PIPE | STDOUT

definition popen_stderr :: "stderr_arg \<Rightarrow> process \<Rightarrow> string option" where
  "popen_stderr a p = (case a of PIPE \<Rightarrow> Some (err_text p) | STDOUT \<Rightarrow> None)"

text \<open>\<open>stream.read()\<close>, where the stream may be \<open>None\<close>.\<close>

definition none_read_message :: string where
  "none_read_message =
     [CHR 0x27] @ ''NoneType'' @ [CHR 0x27] @ '' object has no attribute ''
     @ [CHR 0x27] @ ''read'' @ [CHR 0x27]"

definition stream_read :: "string option \<Rightarrow> exn + string" where
  "stream_read s =
     (case s of None \<Rightarrow> Inl (AttributeError none_read_message) | Some t \<Rightarrow> Inr t)"

text \<open>
  The world: \<open>pm_list cmd\<close> is the outcome of lines 298-299 followed by
  \<open>stdout.decode()\<close> for the listing command (the exception raised, or the decoded
  standard output); \<open>monkey i cmd\<close> is the child process that the \<open>i\<close>-th invocation of
  \<open>run_monkey_command\<close> gets for its command.
\<close>

record world =
  pm_list :: "string \<Rightarrow> exn + string"
  monkey :: "nat \<Rightarrow> string \<Rightarrow> process"

section \<open>run_monkey_command (lines 268-293)\<close>

text \<open>The body of the \<open>try\<close>: the exception it raises or its normal end, and its log.\<close>

definition try_body :: "process \<Rightarrow> string \<Rightarrow> (exn + unit) \<times> entry list" where
  "try_body p package_name =
     (case spawn_error p of
        Some e \<Rightarrow> (Inl e, [])
      | None \<Rightarrow>
          (let lines_log = map (\<lambda>l. (INFO, OutputLine (strip l))) (out_lines p) in
           case read_error p of
             Some e \<Rightarrow> (Inl e, lines_log)
           | None \<Rightarrow>
               if returncode p \<noteq> 0 then
                 (case stream_read (popen_stderr STDOUT p) of
                    Inl e \<Rightarrow> (Inl e, lines_log)
                  | Inr t \<Rightarrow>
                      (Inr (), lines_log @ [(ERROR, PackageFailed package_name (strip t))]))
               else (Inr (), lines_log @ [(INFO, PackageDone package_name)])))"

text \<open>The two \<open>except\<close> clauses, in the source's order.\<close>

fun handler :: "exn \<Rightarrow> entry" where
  "handler (CalledProcessError m) = (ERROR, CommandFailed m)"
| "handler e = (ERROR, UnknownError (exn_str e))"

definition run_monkey_command ::
  "(string \<Rightarrow> process) \<Rightarrow> string \<Rightarrow> string \<Rightarrow> string \<Rightarrow> int \<Rightarrow> int
     \<Rightarrow> (exn + unit) \<times> entry list" where
  "run_monkey_command sh device class_path package_name minutes throttle =
     (let cmd = monkey_cmd device class_path package_name minutes throttle;
          head = [(INFO, ExecCommand cmd), (INFO, RunParams minutes throttle)]
      in case try_body (sh cmd) package_name of
           (Inr u, log) \<Rightarrow> (Inr u, head @ log)
         | (Inl e, log) \<Rightarrow> (Inr (), head @ log @ [handler e]))"

section \<open>execute_adb_command (lines 295-316)\<close>

definition list_cmd :: "string \<Rightarrow> string" where
  "list_cmd device = ''adb -s '' @ device @ '' shell pm list packages''"

text \<open>Line 300.\<close>

definition parse_packages :: "string \<Rightarrow> exn + string list" where
  "parse_packages out =
     collect (map (\<lambda>line. py_index (split_on CHR '':'' line) 1)
                (filter (\<lambda>line. startswith line ''package:'') (splitlines out)))"

text \<open>Lines 296-302.\<close>

definition packages_of :: "world \<Rightarrow> string \<Rightarrow> string \<Rightarrow> exn + string list" where
  "packages_of w device package_name =
     (if package_name = ''all'' then
        (case pm_list w (list_cmd device) of
           Inl e \<Rightarrow> Inl e
         | Inr out \<Rightarrow> parse_packages out)
      else Inr [package_name])"

text \<open>
  What the main thread does, one action at a time: a log call, \<open>executor.submit\<close> of the
  invocation for a package (the future is named by the package's index in the list),
  \<open>future.result()\<close>, and \<open>time.sleep\<close>.
\<close>

datatype action =
    ALog level message
  | ASubmit nat string
  | AResult nat
  | ASleep nat

definition task_ids :: "nat \<times> 'a list \<Rightarrow> nat list" where
  "task_ids ib = [fst ib..<fst ib + length (snd ib)]"

text \<open>The loop body, lines 311-316, for the iteration \<open>(i, batch)\<close>.\<close>

definition batch_actions :: "nat \<times> string list \<Rightarrow> action list" where
  "batch_actions ib =
     map (\<lambda>package. ALog INFO (RunningPackage package)) (snd ib)
     @ map (\<lambda>(k, package). ASubmit k package) (zip (task_ids ib) (snd ib))
     @ map AResult (task_ids ib)
     @ [ASleep delay]"

text \<open>Lines 304-316 for a package list.\<close>

definition main_program :: "string list \<Rightarrow> action list" where
  "main_program packages =
     ALog INFO (PackageCount (length packages)) # concat (map batch_actions (batches packages))"

text \<open>
  The main thread runs its actions in order; \<open>future.result()\<close> raises what the
  invocation raised, which ends the function. The result is the outcome and the
  actions performed.
\<close>

fun perform :: "(nat \<Rightarrow> exn + unit) \<Rightarrow> action list \<Rightarrow> (exn + unit) \<times> action list" where
  "perform res [] = (Inr (), [])"
| "perform res (AResult i # as) =
     (case res i of
        Inl e \<Rightarrow> (Inl e, [AResult i])
      | Inr u \<Rightarrow> (case perform res as of (r, acts) \<Rightarrow> (r, AResult i # acts)))"
| "perform res (a # as) = (case perform res as of (r, acts) \<Rightarrow> (r, a # acts))"

text \<open>The outcome of the invocation submitted for the \<open>i\<close>-th package.\<close>

definition task_result ::
  "world \<Rightarrow> string \<Rightarrow> string \<Rightarrow> string list \<Rightarrow> int \<Rightarrow> int \<Rightarrow> nat \<Rightarrow> exn + unit" where
  "task_result w device class_path packages minutes throttle i =
     fst (run_monkey_command (monkey w i) device class_path (packages ! i) minutes throttle)"

text \<open>
  \<open>ThreadPoolExecutor(max_workers)\<close> raises ValueError unless \<open>max_workers > 0\<close>; then
  the package list is determined and the loop runs.
\<close>

definition execute_adb_command ::
  "world \<Rightarrow> string \<Rightarrow> string \<Rightarrow> string \<Rightarrow> int \<Rightarrow> int \<Rightarrow> int
     \<Rightarrow> (exn + unit) \<times> action list" where
  "execute_adb_command w device class_path package_name minutes throttle max_workers =
     (if max_workers \<le> 0 then (Inl (ValueError ''max_workers must be greater than 0''), [])
      else case packages_of w device package_name of
             Inl e \<Rightarrow> (Inl e, [])
           | Inr packages \<Rightarrow>
               perform (task_result w device class_path packages minutes throttle)
                 (main_program packages))"

text \<open>Readings of an action list.\<close>

fun submitted :: "action list \<Rightarrow> string list" where
  "submitted [] = []"
| "submitted (ASubmit i package # as) = package # submitted as"
| "submitted (a # as) = submitted as"

fun joined :: "action list \<Rightarrow> nat list" where
  "joined [] = []"
| "joined (AResult i # as) = i # joined as"
| "joined (a # as) = joined as"

fun sleeps :: "action list \<Rightarrow> nat list" where
  "sleeps [] = []"
| "sleeps (ASleep d # as) = d # sleeps as"
| "sleeps (a # as) = sleeps as"

fun logged :: "action list \<Rightarrow> entry list" where
  "logged [] = []"
| "logged (ALog l m # as) = (l, m) # logged as"
| "logged (a # as) = logged as"

section \<open>The worker pool\<close>

text \<open>
  The executor keeps a first-in first-out queue of submitted invocations; at most
  \<open>max_workers\<close> of them run at a time; a finished invocation frees its worker. The
  main thread's \<open>future.result()\<close> waits until that invocation has finished, and then
  returns or raises what the invocation raised. After a raise the main thread does
  nothing more; the pool still drains.
\<close>

record pool =
  prog :: "action list"
  raised :: "exn option"
  queue :: "nat list"
  running :: "nat list"
  finished :: "nat list"

datatype event = Main action | Raise exn | Start nat | Finish nat

fun main_step :: "(nat \<Rightarrow> exn + unit) \<Rightarrow> pool \<Rightarrow> action \<Rightarrow> pool option" where
  "main_step res s (ASubmit i package) = Some (s\<lparr>prog := tl (prog s), queue := queue s @ [i]\<rparr>)"
| "main_step res s (AResult i) =
     (if i \<in> set (finished s) \<and> res i = Inr () then Some (s\<lparr>prog := tl (prog s)\<rparr>) else None)"
| "main_step res s a = Some (s\<lparr>prog := tl (prog s)\<rparr>)"

fun step :: "nat \<Rightarrow> (nat \<Rightarrow> exn + unit) \<Rightarrow> pool \<Rightarrow> event \<Rightarrow> pool option" where
  "step W res s (Main a) =
     (if raised s = None \<and> prog s \<noteq> [] \<and> hd (prog s) = a then main_step res s a else None)"
| "step W res s (Raise e) =
     (case prog s of
        AResult i # rest \<Rightarrow>
          (if raised s = None \<and> i \<in> set (finished s) \<and> res i = Inl e
           then Some (s\<lparr>raised := Some e\<rparr>) else None)
      | _ \<Rightarrow> None)"
| "step W res s (Start i) =
     (if queue s \<noteq> [] \<and> hd (queue s) = i \<and> length (running s) < W
      then Some (s\<lparr>queue := tl (queue s), running := running s @ [i]\<rparr>) else None)"
| "step W res s (Finish i) =
     (if i \<in> set (running s)
      then Some (s\<lparr>running := removeAll i (running s), finished := finished s @ [i]\<rparr>)
      else None)"

fun run :: "nat \<Rightarrow> (nat \<Rightarrow> exn + unit) \<Rightarrow> pool \<Rightarrow> event list \<Rightarrow> pool option" where
  "run W res s [] = Some s"
| "run W res s (e # es) = (case step W res s e of None \<Rightarrow> None | Some s' \<Rightarrow> run W res s' es)"

definition init :: "action list \<Rightarrow> pool" where
  "init acts = \<lparr>prog = acts, raised = None, queue = [], running = [], finished = []\<rparr>"

text \<open>
  The event sequences \<open>execute_adb_command\<close> can show on a world: the executor was
  created, the package list was determined, and the pool accepts the sequence.
\<close>

definition execution ::
  "world \<Rightarrow> string \<Rightarrow> string \<Rightarrow> string \<Rightarrow> int \<Rightarrow> int \<Rightarrow> int \<Rightarrow> event list \<Rightarrow> pool option" where
  "execution w device class_path package_name minutes throttle max_workers evs =
     (if max_workers \<le> 0 then None
      else case packages_of w device package_name of
             Inl e \<Rightarrow> None
           | Inr packages \<Rightarrow>
               run (nat max_workers) (task_result w device class_path packages minutes throttle)
                 (init (main_program packages)) evs)"

text \<open>
  All invocations named in \<open>ids\<close> have started before the first of them finishes.
\<close>

definition overlapped :: "nat list \<Rightarrow> event list \<Rightarrow> bool" where
  "overlapped ids evs =
     list_all (\<lambda>i. Start i \<in> set (takeWhile (\<lambda>e. e \<notin> set (map Finish ids)) evs)) ids"

section \<open>Example worlds\<close>

text \<open>A child that prints one line and exits with status 1.\<close>

definition failing_process :: process where
  "failing_process =
     \<lparr>spawn_error = None, out_lines = [''boom''], read_error = None, returncode = 1,
      err_text = ''boom''\<rparr>"

text \<open>A child that prints one line and exits with status 0.\<close>

definition ok_process :: process where
  "ok_process =
     \<lparr>spawn_error = None, out_lines = [''fine''], read_error = None, returncode = 0,
      err_text = []\<rparr>"

text \<open>
  A device that lists two packages; the first invocation gets the failing child, every
  other one the successful child.
\<close>

definition two_packages :: world where
  "two_packages =
     \<lparr>pm_list = (\<lambda>cmd. Inr (''package:com.a'' @ [CHR 0x0A] @ ''package:com.b'' @ [CHR 0x0A])),
      monkey = (\<lambda>i cmd. if i = 0 then failing_process else ok_process)\<rparr>"

text \<open>A device whose listing is empty.\<close>

definition no_packages :: world where
  "no_packages = \<lparr>pm_list = (\<lambda>cmd. Inr []), monkey = (\<lambda>i cmd. ok_process)\<rparr>"

text \<open>A device that lists five packages; every child succeeds.\<close>

definition five_packages :: world where
  "five_packages =
     \<lparr>pm_list = (\<lambda>cmd. Inr (''package:a'' @ [CHR 0x0A] @ ''package:b'' @ [CHR 0x0A]
                              @ ''package:c'' @ [CHR 0x0A] @ ''package:d'' @ [CHR 0x0A]
                              @ ''package:e'' @ [CHR 0x0A])),
      monkey = (\<lambda>i cmd. ok_process)\<rparr>"

text \<open>
  On that device with one worker: the first batch runs, the main thread takes its
  results, sleeps, and submits the fifth package.
\<close>

definition five_run :: "event list" where
  "five_run =
     [Main (ALog INFO (PackageCount 5)),
      Main (ALog INFO (RunningPackage ''a'')), Main (ALog INFO (RunningPackage ''b'')),
      Main (ALog INFO (RunningPackage ''c'')), Main (ALog INFO (RunningPackage ''d'')),
      Main (ASubmit 0 ''a''), Main (ASubmit 1 ''b''), Main (ASubmit 2 ''c''),
      Main (ASubmit 3 ''d''),
      Start 0, Finish 0, Start 1, Finish 1, Start 2, Finish 2, Start 3, Finish 3,
      Main (AResult 0), Main (AResult 1), Main (AResult 2), Main (AResult 3),
      Main (ASleep 10), Main (ALog INFO (RunningPackage ''e'')), Main (ASubmit 4 ''e'')]"

text \<open>
  Two runs on the device with two packages: one in which the first invocation has
  finished before the second is submitted, and the beginning of one in which both are
  submitted before either starts.
\<close>

definition serial_run :: "event list" where
  "serial_run =
     [Main (ALog INFO (PackageCount 2)),
      Main (ALog INFO (RunningPackage ''com.a'')), Main (ALog INFO (RunningPackage ''com.b'')),
      Main (ASubmit 0 ''com.a''), Start 0, Finish 0,
      Main (ASubmit 1 ''com.b''), Start 1, Finish 1,
      Main (AResult 0), Main (AResult 1), Main (ASleep 10)]"

definition overlapping_prefix :: "event list" where
  "overlapping_prefix =
     [Main (ALog INFO (PackageCount 2)),
      Main (ALog INFO (RunningPackage ''com.a'')), Main (ALog INFO (RunningPackage ''com.b'')),
      Main (ASubmit 0 ''com.a''), Main (ASubmit 1 ''com.b''), Start 0]"

section \<open>The listing, in the words of the specification\<close>

text \<open>
  The second colon-separated field of a line: what stands between its first colon and
  its second one (or the end of the line).
\<close>

definition second_field :: "string \<Rightarrow> string" where
  "second_field line =
     takeWhile (\<lambda>c. c \<noteq> CHR '':'') (tl (dropWhile (\<lambda>c. c \<noteq> CHR '':'') line))"

section \<open>Renaming packages\<close>

text \<open>An action with every package name in it replaced by its image under \<open>f\<close>.\<close>

fun rename_message :: "(string \<Rightarrow> string) \<Rightarrow> message \<Rightarrow> message" where
  "rename_message f (RunningPackage p) = RunningPackage (f p)"
| "rename_message f (PackageFailed p t) = PackageFailed (f p) t"
| "rename_message f (PackageDone p) = PackageDone (f p)"
| "rename_message f m = m"

fun rename :: "(string \<Rightarrow> string) \<Rightarrow> action \<Rightarrow> action" where
  "rename f (ALog l m) = ALog l (rename_message f m)"
| "rename f (ASubmit i p) = ASubmit i (f p)"
| "rename f a = a"

section \<open>An invariant of the pool\<close>

text \<open>The futures a list of actions submits, in order.\<close>

fun submit_ids :: "action list \<Rightarrow> nat list" where
  "submit_ids [] = []"
| "submit_ids (ASubmit i package # as) = i # submit_ids as"
| "submit_ids (a # as) = submit_ids as"

text \<open>
  What holds in every state the pool reaches while the main thread runs \<open>acts\<close>: the
  main thread has performed a prefix of \<open>acts\<close>; every future whose result it has taken
  has finished; every invocation the pool knows was submitted in that prefix; and no
  invocation is in two places at once.
\<close>

definition pool_inv :: "action list \<Rightarrow> pool \<Rightarrow> bool" where
  "pool_inv acts s =
     (\<exists>pre. acts = pre @ prog s
        \<and> set (joined pre) \<subseteq> set (finished s)
        \<and> set (queue s) \<union> set (running s) \<union> set (finished s) \<subseteq> set (submit_ids pre)
        \<and> distinct (queue s @ running s @ finished s))"

text \<open>
  The converse for the submitted invocations: each one the main thread has submitted is
  queued, running or finished.
\<close>

definition pool_known :: "action list \<Rightarrow> pool \<Rightarrow> bool" where
  "pool_known acts s =
     (\<exists>pre. acts = pre @ prog s
        \<and> set (submit_ids pre) \<subseteq> set (queue s) \<union> set (running s) \<union> set (finished s))"

text \<open>A bound on the number of events still to come.\<close>

definition work_left :: "pool \<Rightarrow> nat" where
  "work_left s = 3 * length (prog s) + 2 * length (queue s) + length (running s)"

section \<open>A schedule\<close>

text \<open>
  One way for the pool to go through a package list: in each batch, the main thread
  logs and submits, then every invocation of the batch starts, then every one
  finishes, then the main thread takes the results and sleeps.
\<close>

definition batch_schedule :: "nat \<times> string list \<Rightarrow> event list" where
  "batch_schedule ib =
     map (\<lambda>package. Main (ALog INFO (RunningPackage package))) (snd ib)
     @ map (\<lambda>(k, package). Main (ASubmit k package)) (zip (task_ids ib) (snd ib))
     @ map Start (task_ids ib)
     @ map Finish (task_ids ib)
     @ map (\<lambda>k. Main (AResult k)) (task_ids ib)
     @ [Main (ASleep delay)]"

definition overlap_schedule :: "string list \<Rightarrow> event list" where
  "overlap_schedule packages =
     Main (ALog INFO (PackageCount (length packages)))
     # concat (map batch_schedule (batches packages))"

section \<open>Batching\<close>

lemma ceil_step:
  assumes "0 < (B::nat)" "i < n"
  shows "(n - i + B - 1) div B = Suc ((n - (i + B) + B - 1) div B)"
proof (cases "i + B \<le> n")
  case True
  then have "n - i + B - 1 = (n - (i + B) + B - 1) + B" using assms by simp
  then have "(n - i + B - 1) div B = ((n - (i + B) + B - 1) + B) div B" by simp
  also have "\<dots> = Suc ((n - (i + B) + B - 1) div B)" using assms(1) by (simp only: div_add_self2)
  finally show ?thesis .
next
  case False
  then have a: "n - (i + B) + B - 1 = B - 1" by simp
  from False assms have b: "n - i + B - 1 = (n - i - 1) + B" and c: "n - i - 1 < B" by simp_all
  have "(n - i + B - 1) div B = ((n - i - 1) + B) div B" using b by simp
  also have "\<dots> = Suc ((n - i - 1) div B)" using assms(1) by (simp only: div_add_self2)
  also have "\<dots> = Suc 0" using c by simp
  finally show ?thesis using a assms(1) by simp
qed

lemma range_step_closed:
  "0 < B \<Longrightarrow> range_step i n B = map (\<lambda>k. i + k * B) [0..<(n - i + B - 1) div B]"
proof (induction i n B rule: range_step.induct)
  case (1 i stop step)
  show ?case
  proof (cases "stop \<le> i")
    case True
    with "1.prems" show ?thesis by (simp add: range_step.simps)
  next
    case False
    then have lt: "i < stop" by simp
    from False "1.prems" have "range_step i stop step = i # range_step (i + step) stop step"
      by (simp add: range_step.simps)
    also have "range_step (i + step) stop step
        = map (\<lambda>k. i + step + k * step) [0..<(stop - (i + step) + step - 1) div step]"
      using "1.IH" False "1.prems" by simp
    finally show ?thesis
      unfolding ceil_step [OF "1.prems" lt]
      by (simp add: upt_conv_Cons map_Suc_upt [symmetric] del: upt_Suc)
  qed
qed

lemma batches_closed:
  "batches xs = map (\<lambda>k. (k * batch_size, take batch_size (drop (k * batch_size) xs)))
                  [0..<(length xs + batch_size - 1) div batch_size]"
  by (simp add: batches_def py_slice_def range_step_closed batch_size_def)

lemma concat_chunks:
  "concat (map (\<lambda>k. take B (drop (k * B) xs)) [0..<m]) = take (m * B) xs"
proof (induction m)
  case 0
  show ?case by simp
next
  case (Suc m)
  have "take (m * B + B) xs = take (m * B) xs @ take B (drop (m * B) xs)"
    by (rule take_add)
  with Suc show ?case by (simp add: add.commute)
qed

lemma ceil_covers: "0 < (B::nat) \<Longrightarrow> n \<le> ((n + B - 1) div B) * B"
proof -
  assume B: "0 < B"
  have "n + B - 1 = ((n + B - 1) div B) * B + (n + B - 1) mod B" by simp
  moreover have "(n + B - 1) mod B < B" using B by simp
  ultimately show ?thesis by linarith
qed

lemma concat_batches: "concat (map snd (batches xs)) = xs"
proof -
  have "concat (map snd (batches xs))
      = take (((length xs + batch_size - 1) div batch_size) * batch_size) xs"
    by (simp add: batches_closed comp_def concat_chunks)
  moreover have "length xs \<le> ((length xs + batch_size - 1) div batch_size) * batch_size"
    by (rule ceil_covers) (simp add: batch_size_def)
  ultimately show ?thesis by simp
qed

lemma length_batches: "length (batches xs) = (length xs + batch_size - 1) div batch_size"
  by (simp add: batches_closed)

lemma batch_bounded: "ib \<in> set (batches xs) \<Longrightarrow> length (snd ib) \<le> batch_size"
  by (auto simp: batches_closed)

lemma submitted_append: "submitted (as @ bs) = submitted as @ submitted bs"
  by (induction as rule: submitted.induct) simp_all

lemma submitted_logs: "submitted (map (\<lambda>p. ALog l (f p)) ps) = []"
  by (induction ps) simp_all

lemma submitted_results: "submitted (map AResult ks) = []"
  by (induction ks) simp_all

lemma submitted_zip:
  "length ks = length ps \<Longrightarrow> submitted (map (\<lambda>(k, p). ASubmit k p) (zip ks ps)) = ps"
  by (induction ks ps rule: list_induct2) simp_all

lemma submitted_batch: "submitted (batch_actions ib) = snd ib"
  by (simp add: batch_actions_def submitted_append submitted_logs submitted_results
      submitted_zip task_ids_def)

lemma submitted_concat: "submitted (concat (map batch_actions bs)) = concat (map snd bs)"
  by (induction bs) (simp_all add: submitted_append submitted_batch)

lemma submitted_main: "submitted (main_program packages) = packages"
  by (simp add: main_program_def submitted_concat concat_batches)

section \<open>The command string\<close>

lemma monkey_cmd_example:
  "monkey_cmd ''D1'' ''A:B:C'' ''com.x'' 5 500 =
     ''adb -s D1 shell CLASSPATH=A:B:C exec app_process /system/bin com.android.commands.monkey.Monkey -p com.x --agent reuseq --running-minutes 5 --throttle 500 --pct-touch 30 -v -v''"
  by (simp add: monkey_cmd_def str_int_def str_nat.simps digit_char_def)

section \<open>run_monkey_command never raises\<close>

lemma run_monkey_command_returns:
  "fst (run_monkey_command sh device class_path package_name minutes throttle) = Inr ()"
  by (simp add: run_monkey_command_def Let_def split: prod.splits sum.splits)

lemma try_body_nonzero:
  assumes "spawn_error p = None" "read_error p = None" "returncode p \<noteq> 0"
  shows "try_body p package_name =
           (Inl (AttributeError none_read_message),
            map (\<lambda>l. (INFO, OutputLine (strip l))) (out_lines p))"
  using assms by (simp add: try_body_def popen_stderr_def stream_read_def)

lemma nonzero_exit_log:
  assumes "spawn_error (sh (monkey_cmd device class_path package_name minutes throttle)) = None"
    and "read_error (sh (monkey_cmd device class_path package_name minutes throttle)) = None"
    and "returncode (sh (monkey_cmd device class_path package_name minutes throttle)) \<noteq> 0"
  shows "snd (run_monkey_command sh device class_path package_name minutes throttle) =
           [(INFO, ExecCommand (monkey_cmd device class_path package_name minutes throttle)),
            (INFO, RunParams minutes throttle)]
           @ map (\<lambda>l. (INFO, OutputLine (strip l)))
               (out_lines (sh (monkey_cmd device class_path package_name minutes throttle)))
           @ [(ERROR, UnknownError none_read_message)]"
  using assms by (simp add: run_monkey_command_def Let_def try_body_nonzero)

lemma try_body_failure:
  assumes "spawn_error p \<noteq> None \<or> read_error p \<noteq> None \<or> returncode p \<noteq> 0"
  shows "\<exists>e log. try_body p package_name = (Inl e, log)"
proof (cases "spawn_error p")
  case (Some e)
  then show ?thesis by (simp add: try_body_def)
next
  case None
  show ?thesis
  proof (cases "read_error p")
    case (Some e)
    with None show ?thesis by (simp add: try_body_def)
  next
    case N: None
    with None assms have "returncode p \<noteq> 0" by simp
    with None N show ?thesis by (simp add: try_body_nonzero)
  qed
qed

lemma failure_logged:
  assumes "spawn_error (sh (monkey_cmd device class_path package_name minutes throttle)) \<noteq> None
         \<or> read_error (sh (monkey_cmd device class_path package_name minutes throttle)) \<noteq> None
         \<or> returncode (sh (monkey_cmd device class_path package_name minutes throttle)) \<noteq> 0"
  shows "fst (last (snd (run_monkey_command sh device class_path package_name minutes throttle)))
           = ERROR"
proof -
  have hl: "fst (handler e) = ERROR" for e by (cases e) simp_all
  from try_body_failure [OF assms] obtain e log
    where "try_body (sh (monkey_cmd device class_path package_name minutes throttle)) package_name
             = (Inl e, log)"
    by blast
  then show ?thesis by (simp add: run_monkey_command_def Let_def hl)
qed

section \<open>The main thread\<close>

lemma perform_all_ok: "(\<And>i. res i = Inr ()) \<Longrightarrow> perform res acts = (Inr (), acts)"
  by (induction res acts rule: perform.induct) simp_all

lemma task_result_ok: "task_result w device class_path packages minutes throttle i = Inr ()"
  by (simp add: task_result_def run_monkey_command_returns)

lemma execute_ok:
  assumes "0 < max_workers" and "packages_of w device package_name = Inr packages"
  shows "execute_adb_command w device class_path package_name minutes throttle max_workers
           = (Inr (), main_program packages)"
  using assms by (simp add: execute_adb_command_def perform_all_ok task_result_ok)

lemma joined_append: "joined (as @ bs) = joined as @ joined bs"
  by (induction as rule: joined.induct) simp_all

lemma joined_logs: "joined (map (\<lambda>p. ALog l (f p)) ps) = []"
  by (induction ps) simp_all

lemma joined_results: "joined (map AResult ks) = ks"
  by (induction ks) simp_all

lemma joined_zip: "joined (map (\<lambda>(k, p). ASubmit k p) kps) = []"
  by (induction kps) auto

lemma joined_batch: "joined (batch_actions ib) = task_ids ib"
  by (simp add: batch_actions_def joined_append joined_logs joined_results joined_zip)

lemma joined_concat: "joined (concat (map batch_actions bs)) = concat (map task_ids bs)"
  by (induction bs) (simp_all add: joined_append joined_batch)

lemma concat_ranges:
  "concat (map (\<lambda>k. [k * B..<k * B + min (n - k * B) B]) [0..<m]) = [0..<min (m * B) n]"
proof (induction m)
  case 0
  show ?case by simp
next
  case (Suc m)
  show ?case
  proof (cases "m * B \<le> n")
    case True
    then have a: "min (m * B) n = m * B" and b: "m * B + min (n - m * B) B = min (m * B + B) n"
      by simp_all
    have "[0..<m * B] @ [m * B..<min (m * B + B) n] = [0..<min (m * B + B) n]"
      using True by (metis le_add1 le_add_diff_inverse min.boundedI upt_add_eq_append zero_le)
    with Suc a b show ?thesis by (simp add: add.commute)
  next
    case False
    then have "min (m * B) n = n" "n - m * B = 0" "min (m * B + B) n = n" by simp_all
    with Suc show ?thesis by (simp add: add.commute)
  qed
qed

lemma task_ids_concat: "concat (map task_ids (batches xs)) = [0..<length xs]"
proof -
  have "concat (map task_ids (batches xs))
      = [0..<min (((length xs + batch_size - 1) div batch_size) * batch_size) (length xs)]"
    by (simp add: batches_closed comp_def task_ids_def concat_ranges)
  moreover have "length xs \<le> ((length xs + batch_size - 1) div batch_size) * batch_size"
    by (rule ceil_covers) (simp add: batch_size_def)
  ultimately show ?thesis by (simp add: min_absorb2)
qed

lemma joined_main: "joined (main_program packages) = [0..<length packages]"
  by (simp add: main_program_def joined_concat task_ids_concat)

lemma sleeps_append: "sleeps (as @ bs) = sleeps as @ sleeps bs"
  by (induction as rule: sleeps.induct) simp_all

lemma sleeps_logs: "sleeps (map (\<lambda>p. ALog l (f p)) ps) = []"
  by (induction ps) simp_all

lemma sleeps_results: "sleeps (map AResult ks) = []"
  by (induction ks) simp_all

lemma sleeps_zip: "sleeps (map (\<lambda>(k, p). ASubmit k p) kps) = []"
  by (induction kps) auto

lemma sleeps_batch: "sleeps (batch_actions ib) = [delay]"
  by (simp add: batch_actions_def sleeps_append sleeps_logs sleeps_results sleeps_zip)

lemma sleeps_concat: "sleeps (concat (map batch_actions bs)) = replicate (length bs) delay"
  by (induction bs) (simp_all add: sleeps_append sleeps_batch)

lemma sleeps_main: "sleeps (main_program packages) = replicate (length (batches packages)) delay"
  by (simp add: main_program_def sleeps_concat)

lemma logged_append: "logged (as @ bs) = logged as @ logged bs"
  by (induction as rule: logged.induct) simp_all

lemma logged_logs: "logged (map (\<lambda>p. ALog l (f p)) ps) = map (\<lambda>p. (l, f p)) ps"
  by (induction ps) simp_all

lemma logged_results: "logged (map AResult ks) = []"
  by (induction ks) simp_all

lemma logged_zip: "logged (map (\<lambda>(k, p). ASubmit k p) kps) = []"
  by (induction kps) auto

lemma logged_batch: "logged (batch_actions ib) = map (\<lambda>p. (INFO, RunningPackage p)) (snd ib)"
  by (simp add: batch_actions_def logged_append logged_logs logged_results logged_zip)

lemma logged_concat:
  "logged (concat (map batch_actions bs))
     = map (\<lambda>p. (INFO, RunningPackage p)) (concat (map snd bs))"
  by (induction bs) (simp_all add: logged_append logged_batch)

lemma logged_main:
  "logged (main_program packages)
     = (INFO, PackageCount (length packages)) # map (\<lambda>p. (INFO, RunningPackage p)) packages"
  by (simp add: main_program_def logged_concat concat_batches)

lemma batches_Nil: "batches [] = []"
  by (simp add: batches_def range_step.simps)

lemma batches_single: "batches [x] = [(0, [x])]"
  by (simp add: batches_def range_step.simps batch_size_def py_slice_def)

lemma main_program_Nil: "main_program [] = [ALog INFO (PackageCount 0)]"
  by (simp add: main_program_def batches_Nil)






section \<open>The package listing\<close>

lemma split_on_hd:
  "split_on sep cs \<noteq> [] \<and> hd (split_on sep cs) = takeWhile (\<lambda>c. c \<noteq> sep) cs"
  by (induction cs) (auto split: list.splits)

lemma split_on_second:
  "sep \<in> set cs \<Longrightarrow>
     1 < length (split_on sep cs)
     \<and> split_on sep cs ! 1 = takeWhile (\<lambda>c. c \<noteq> sep) (tl (dropWhile (\<lambda>c. c \<noteq> sep) cs))"
proof (induction cs)
  case Nil
  then show ?case by simp
next
  case (Cons c cs)
  show ?case
  proof (cases "c = sep")
    case True
    from split_on_hd [of sep cs] show ?thesis
      using True by (cases "split_on sep cs") simp_all
  next
    case False
    with Cons.prems have "sep \<in> set cs" by simp
    from Cons.IH [OF this] False show ?thesis
      by (cases "split_on sep cs") simp_all
  qed
qed

lemma startswith_set: "startswith line p \<Longrightarrow> set p \<subseteq> set line"
  by (metis startswith_def set_take_subset)

lemma startswith_package_colon: "startswith line ''package:'' \<Longrightarrow> CHR '':'' \<in> set line"
  using startswith_set [of line "''package:''"] by auto

lemma package_field:
  "startswith line ''package:'' \<Longrightarrow>
     py_index (split_on CHR '':'' line) 1 = Inr (second_field line)"
  using split_on_second [OF startswith_package_colon, of line]
  by (simp add: py_index_def second_field_def)

lemma collect_all_ok: "collect (map Inr xs) = Inr xs"
  by (induction xs) simp_all

lemma collect_map_ok:
  "(\<And>x. x \<in> set xs \<Longrightarrow> f x = Inr (g x)) \<Longrightarrow> collect (map f xs) = Inr (map g xs)"
  by (induction xs) simp_all

lemma parse_packages_eq:
  "parse_packages out =
     Inr (map second_field (filter (\<lambda>line. startswith line ''package:'') (splitlines out)))"
  unfolding parse_packages_def
  by (rule collect_map_ok) (use package_field in auto)

section \<open>The example worlds evaluated\<close>

lemma two_packages_list:
  "packages_of two_packages device ''all'' = Inr [''com.a'', ''com.b'']"
  by (simp add: packages_of_def two_packages_def parse_packages_def splitlines_def
      is_linebreak_def startswith_def py_index_def)

lemma no_packages_list: "packages_of no_packages device ''all'' = Inr []"
  by (simp add: packages_of_def no_packages_def parse_packages_def splitlines_def)

lemma other_name_list: "package_name \<noteq> ''all'' \<Longrightarrow> packages_of w device package_name = Inr [package_name]"
  by (simp add: packages_of_def)

lemma batches_two: "batches [a, b] = [(0, [a, b])]"
  by (simp add: batches_def range_step.simps batch_size_def py_slice_def)

lemma main_program_two:
  "main_program [a, b] =
     [ALog INFO (PackageCount 2), ALog INFO (RunningPackage a), ALog INFO (RunningPackage b),
      ASubmit 0 a, ASubmit 1 b, AResult 0, AResult 1, ASleep delay]"
  by (simp add: main_program_def batches_two batch_actions_def task_ids_def upt_rec)

lemma five_packages_list:
  "packages_of five_packages device ''all'' = Inr [''a'', ''b'', ''c'', ''d'', ''e'']"
  by (simp add: packages_of_def five_packages_def parse_packages_def splitlines_def
      is_linebreak_def startswith_def py_index_def)

lemma batches_five:
  "batches [a, b, c, d, e] = [(0, [a, b, c, d]), (4, [e])]"
  by (simp add: batches_def range_step.simps batch_size_def py_slice_def)

lemma main_program_five:
  "main_program [a, b, c, d, e] =
     [ALog INFO (PackageCount 5),
      ALog INFO (RunningPackage a), ALog INFO (RunningPackage b),
      ALog INFO (RunningPackage c), ALog INFO (RunningPackage d),
      ASubmit 0 a, ASubmit 1 b, ASubmit 2 c, ASubmit 3 d,
      AResult 0, AResult 1, AResult 2, AResult 3, ASleep delay,
      ALog INFO (RunningPackage e), ASubmit 4 e, AResult 4, ASleep delay]"
  by (simp add: main_program_def batches_five batch_actions_def task_ids_def upt_rec)

section \<open>The loop does not look at package names\<close>

lemma batches_map:
  "batches (map f xs) = map (\<lambda>ib. (fst ib, map f (snd ib))) (batches xs)"
  by (simp add: batches_closed take_map drop_map)

lemma batch_actions_map:
  "batch_actions (fst ib, map f (snd ib)) = map (rename f) (batch_actions ib)"
  by (simp add: batch_actions_def task_ids_def zip_map2 comp_def case_prod_beta)

lemma main_program_map: "main_program (map f packages) = map (rename f) (main_program packages)"
proof -
  have "concat (map batch_actions (map (\<lambda>ib. (fst ib, map f (snd ib))) bs))
      = map (rename f) (concat (map batch_actions bs))" for bs
    by (induction bs) (simp_all add: batch_actions_map)
  then show ?thesis by (simp add: main_program_def batches_map)
qed

section \<open>Runs of the pool\<close>

lemma run_append:
  "run W res s (es1 @ es2) =
     (case run W res s es1 of None \<Rightarrow> None | Some s' \<Rightarrow> run W res s' es2)"
  by (induction es1 arbitrary: s) (auto split: option.splits)

lemma main_step_finished: "main_step res s a = Some s' \<Longrightarrow> finished s' = finished s"
  by (cases a) (auto split: if_splits)

lemma step_finished:
  "step W res s e = Some s' \<Longrightarrow> set (finished s') = set (finished s) \<union> {i. e = Finish i}"
  by (cases e) (auto split: if_splits list.splits action.splits dest: main_step_finished)

lemma run_finished:
  "run W res s evs = Some s' \<Longrightarrow> set (finished s') = set (finished s) \<union> {i. Finish i \<in> set evs}"
proof (induction evs arbitrary: s)
  case Nil
  then show ?case by simp
next
  case (Cons e evs)
  from Cons.prems obtain s1 where s1: "step W res s e = Some s1" and r: "run W res s1 evs = Some s'"
    by (auto split: option.splits)
  from Cons.IH [OF r] step_finished [OF s1] show ?case by auto
qed

lemma joined_snoc: "joined (as @ [a]) = joined as @ joined [a]"
  by (rule joined_append)

lemma submit_ids_append: "submit_ids (as @ bs) = submit_ids as @ submit_ids bs"
  by (induction as rule: submit_ids.induct) simp_all

lemma pool_inv_init: "pool_inv acts (init acts)"
  by (simp add: pool_inv_def init_def)

lemma pool_inv_main:
  assumes d: "distinct (submit_ids acts)"
    and inv: "pool_inv acts s"
    and hd: "prog s = a # rest"
    and st: "main_step res s a = Some s'"
  shows "pool_inv acts s'"
proof -
  from inv obtain pre where pre: "acts = pre @ prog s"
    and j: "set (joined pre) \<subseteq> set (finished s)"
    and sub: "set (queue s) \<union> set (running s) \<union> set (finished s) \<subseteq> set (submit_ids pre)"
    and dis: "distinct (queue s @ running s @ finished s)"
    unfolding pool_inv_def by blast
  from pre hd have acts: "acts = (pre @ [a]) @ rest" by simp
  show ?thesis
  proof (cases a)
    case (ALog l m)
    with st hd have s': "s' = s\<lparr>prog := rest\<rparr>" by simp
    show ?thesis unfolding pool_inv_def
      by (rule exI [of _ "pre @ [a]"])
        (use acts j sub dis ALog in \<open>auto simp: s' joined_append submit_ids_append\<close>)
  next
    case (ASleep n)
    with st hd have s': "s' = s\<lparr>prog := rest\<rparr>" by simp
    show ?thesis unfolding pool_inv_def
      by (rule exI [of _ "pre @ [a]"])
        (use acts j sub dis ASleep in \<open>auto simp: s' joined_append submit_ids_append\<close>)
  next
    case (AResult i)
    with st hd have s': "s' = s\<lparr>prog := rest\<rparr>" and fin: "i \<in> set (finished s)"
      by (auto split: if_splits)
    show ?thesis unfolding pool_inv_def
      by (rule exI [of _ "pre @ [a]"])
        (use acts j sub dis AResult fin in \<open>auto simp: s' joined_append submit_ids_append\<close>)
  next
    case (ASubmit i p)
    with st hd have s': "s' = s\<lparr>prog := rest, queue := queue s @ [i]\<rparr>" by simp
    from d acts ASubmit have "i \<notin> set (submit_ids pre)"
      by (simp add: submit_ids_append)
    with sub have new: "i \<notin> set (queue s) \<union> set (running s) \<union> set (finished s)" by blast
    show ?thesis unfolding pool_inv_def
      by (rule exI [of _ "pre @ [a]"])
        (use acts j sub dis ASubmit new in \<open>auto simp: s' joined_append submit_ids_append\<close>)
  qed
qed

lemma pool_inv_step:
  assumes d: "distinct (submit_ids acts)"
    and inv: "pool_inv acts s"
    and st: "step W res s e = Some s'"
  shows "pool_inv acts s'"
proof (cases e)
  case (Main a)
  with st have "prog s = a # tl (prog s)" and "main_step res s a = Some s'"
    by (auto split: if_splits)
  with d inv show ?thesis by (rule pool_inv_main)
next
  case (Raise x)
  with st have "s' = s\<lparr>raised := Some x\<rparr>"
    by (auto split: list.splits action.splits if_splits)
  with inv show ?thesis by (simp add: pool_inv_def)
next
  case (Start i)
  with st obtain q where q: "queue s = i # q"
    and s': "s' = s\<lparr>queue := q, running := running s @ [i]\<rparr>"
    by (cases "queue s") (auto split: if_splits)
  from inv obtain pre where pre: "acts = pre @ prog s"
    and j: "set (joined pre) \<subseteq> set (finished s)"
    and sub: "set (queue s) \<union> set (running s) \<union> set (finished s) \<subseteq> set (submit_ids pre)"
    and dis: "distinct (queue s @ running s @ finished s)"
    unfolding pool_inv_def by blast
  from sub have sub': "set q \<union> set (running s @ [i]) \<union> set (finished s) \<subseteq> set (submit_ids pre)"
    unfolding q by auto
  from dis have dis': "distinct (q @ (running s @ [i]) @ finished s)"
    unfolding q by auto
  show ?thesis unfolding pool_inv_def
    by (rule exI [of _ pre]) (use pre j sub' dis' in \<open>simp add: s'\<close>)
next
  case (Finish i)
  with st have r: "i \<in> set (running s)"
    and s': "s' = s\<lparr>running := removeAll i (running s), finished := finished s @ [i]\<rparr>"
    by (auto split: if_splits)
  from inv obtain pre where pre: "acts = pre @ prog s"
    and j: "set (joined pre) \<subseteq> set (finished s)"
    and sub: "set (queue s) \<union> set (running s) \<union> set (finished s) \<subseteq> set (submit_ids pre)"
    and dis: "distinct (queue s @ running s @ finished s)"
    unfolding pool_inv_def by blast
  show ?thesis unfolding pool_inv_def
    by (rule exI [of _ pre]) (use pre j sub dis r in \<open>auto simp: s' distinct_removeAll\<close>)
qed

lemma pool_inv_run:
  "distinct (submit_ids acts) \<Longrightarrow> pool_inv acts s \<Longrightarrow> run W res s evs = Some s'
     \<Longrightarrow> pool_inv acts s'"
proof (induction evs arbitrary: s)
  case Nil
  then show ?case by simp
next
  case (Cons e evs)
  from Cons.prems(3) obtain s1 where s1: "step W res s e = Some s1"
    and r: "run W res s1 evs = Some s'"
    by (auto split: option.splits)
  from Cons.prems(1,2) s1 have "pool_inv acts s1" by (rule pool_inv_step)
  with Cons.IH Cons.prems(1) r show ?case by blast
qed

section \<open>Where the actions of a batch stand in the program\<close>

lemma concat_split:
  "concat xss = pre @ x # rest \<Longrightarrow>
     \<exists>yss a b zss. xss = yss @ (a @ x # b) # zss \<and> pre = concat yss @ a"
proof (induction xss arbitrary: pre)
  case Nil
  then show ?case by simp
next
  case (Cons xs xss)
  from Cons.prems have "xs @ concat xss = pre @ x # rest" by simp
  then consider us where "xs = pre @ us" "us @ concat xss = x # rest"
    | us where "xs @ us = pre" "concat xss = us @ x # rest"
    by (auto simp: append_eq_append_conv2)
  then show ?case
  proof cases
    case 1
    show ?thesis
    proof (cases us)
      case Nil
      with 1 have "concat xss = [] @ x # rest" by simp
      from Cons.IH [OF this] obtain yss a b zss
        where "xss = yss @ (a @ x # b) # zss" "[] = concat yss @ a" by blast
      with 1 Nil have "xs # xss = (xs # yss) @ (a @ x # b) # zss \<and> pre = concat (xs # yss) @ a"
        by simp
      then show ?thesis by blast
    next
      case (Cons u us')
      with 1 have "xs # xss = [] @ (pre @ x # us') # xss \<and> pre = concat [] @ pre" by simp
      then show ?thesis by blast
    qed
  next
    case 2
    from Cons.IH [OF 2(2)] obtain yss a b zss
      where "xss = yss @ (a @ x # b) # zss" "us = concat yss @ a" by blast
    with 2 have "xs # xss = (xs # yss) @ (a @ x # b) # zss \<and> pre = concat (xs # yss) @ a"
      by auto
    then show ?thesis by blast
  qed
qed

lemma submit_in_batch: "ASubmit j p \<in> set (batch_actions ib) \<Longrightarrow> j \<in> set (task_ids ib)"
  by (auto simp: batch_actions_def dest: set_zip_leftD)

lemma result_in_batch: "i \<in> set (task_ids ib) \<Longrightarrow> AResult i \<in> set (batch_actions ib)"
  by (simp add: batch_actions_def)

text \<open>The batch of index \<open>k\<close> and the invocations in it.\<close>

lemma batches_nth:
  "k < length (batches xs) \<Longrightarrow>
     batches xs ! k = (k * batch_size, take batch_size (drop (k * batch_size) xs))"
  by (simp add: batches_closed)

lemma task_ids_nth:
  assumes "k < length (batches xs)"
  shows "set (task_ids (batches xs ! k)) = {i. i < length xs \<and> i div batch_size = k}"
proof -
  have B: "0 < batch_size" by (simp add: batch_size_def)
  have "set (task_ids (batches xs ! k))
      = {i. k * batch_size \<le> i \<and> i < k * batch_size + min (length xs - k * batch_size) batch_size}"
    using assms by (auto simp: batches_nth task_ids_def)
  also have "\<dots> = {i. i < length xs \<and> i div batch_size = k}"
  proof (rule Collect_cong)
    fix i
    have d: "i div batch_size = k \<longleftrightarrow> k * batch_size \<le> i \<and> i < k * batch_size + batch_size"
    proof
      assume "i div batch_size = k"
      with div_times_less_eq_dividend [of i batch_size] dividend_less_div_times [OF B, of i]
      show "k * batch_size \<le> i \<and> i < k * batch_size + batch_size" by auto
    next
      assume "k * batch_size \<le> i \<and> i < k * batch_size + batch_size"
      then show "i div batch_size = k"
        by (intro div_nat_eqI) (simp_all add: mult.commute)
    qed
    show "(k * batch_size \<le> i \<and> i < k * batch_size + min (length xs - k * batch_size) batch_size)
        \<longleftrightarrow> (i < length xs \<and> i div batch_size = k)"
      unfolding d by auto
  qed
  finally show ?thesis .
qed


lemma task_ids_bound:
  "i < length xs \<Longrightarrow> i div batch_size < length (batches xs)"
proof -
  assume i: "i < length xs"
  have B: "0 < batch_size" by (simp add: batch_size_def)
  have "length xs \<le> ((length xs + batch_size - 1) div batch_size) * batch_size"
    using B by (rule ceil_covers)
  with i have "i < ((length xs + batch_size - 1) div batch_size) * batch_size" by simp
  then have "i div batch_size < (length xs + batch_size - 1) div batch_size"
    using B by (simp add: less_mult_imp_div_less)
  then show ?thesis by (simp add: length_batches)
qed

lemma joined_set: "set (joined as) = {i. AResult i \<in> set as}"
  by (induction as rule: joined.induct) auto

lemma submit_ids_set: "set (submit_ids as) = {j. \<exists>p. ASubmit j p \<in> set as}"
  by (induction as rule: submit_ids.induct) auto

lemma submit_ids_logs: "submit_ids (map (\<lambda>p. ALog l (f p)) ps) = []"
  by (induction ps) simp_all

lemma submit_ids_results: "submit_ids (map AResult ks) = []"
  by (induction ks) simp_all

lemma submit_ids_zip:
  "length ks = length ps \<Longrightarrow> submit_ids (map (\<lambda>(k, p). ASubmit k p) (zip ks ps)) = ks"
  by (induction ks ps rule: list_induct2) simp_all

lemma submit_ids_batch: "submit_ids (batch_actions ib) = task_ids ib"
  by (simp add: batch_actions_def submit_ids_append submit_ids_logs submit_ids_results
      submit_ids_zip task_ids_def)

lemma submit_ids_concat: "submit_ids (concat (map batch_actions bs)) = concat (map task_ids bs)"
  by (induction bs) (simp_all add: submit_ids_append submit_ids_batch)

lemma submit_ids_main: "submit_ids (main_program packages) = [0..<length packages]"
  by (simp add: main_program_def submit_ids_concat task_ids_concat)

lemma results_before_submit:
  assumes prog: "main_program packages = pre @ ASubmit j p # rest"
    and i: "i < length packages"
    and lt: "i div batch_size < j div batch_size"
  shows "i \<in> set (joined pre)"
proof -
  from prog obtain pre' where pre: "pre = ALog INFO (PackageCount (length packages)) # pre'"
    and c: "concat (map batch_actions (batches packages)) = pre' @ ASubmit j p # rest"
    by (cases pre) (auto simp: main_program_def)
  from concat_split [OF c] obtain yss a b zss
    where m: "map batch_actions (batches packages) = yss @ (a @ ASubmit j p # b) # zss"
      and pre': "pre' = concat yss @ a"
    by blast
  from m obtain bs1 ib bs2 where bs: "batches packages = bs1 @ ib # bs2"
    and yss: "yss = map batch_actions bs1"
    and ib: "batch_actions ib = a @ ASubmit j p # b"
    by (auto simp: map_eq_append_conv map_eq_Cons_conv)
  let ?k = "length bs1"
  from bs have k: "?k < length (batches packages)" and nth: "batches packages ! ?k = ib"
    by simp_all
  from ib have "j \<in> set (task_ids ib)"
    by (intro submit_in_batch [of j p]) simp
  with task_ids_nth [OF k] nth have jk: "j div batch_size = ?k" by simp
  let ?n = "i div batch_size"
  from lt jk have n: "?n < ?k" by simp
  with k have n': "?n < length (batches packages)" by simp
  from task_ids_nth [OF n'] i have "i \<in> set (task_ids (batches packages ! ?n))" by simp
  moreover from bs n have "batches packages ! ?n = bs1 ! ?n" by (simp add: nth_append)
  ultimately have "AResult i \<in> set (batch_actions (bs1 ! ?n))"
    by (simp add: result_in_batch)
  moreover from n have "bs1 ! ?n \<in> set bs1" by simp
  ultimately have "AResult i \<in> set (concat (map batch_actions bs1))" by auto
  with pre pre' yss show ?thesis by (simp add: joined_set)
qed

lemma submitted_split:
  "j \<in> set (submit_ids pre) \<Longrightarrow> \<exists>a p b. pre = a @ ASubmit j p # b"
proof -
  assume "j \<in> set (submit_ids pre)"
  then obtain p where "ASubmit j p \<in> set pre" by (auto simp: submit_ids_set)
  from split_list [OF this] show ?thesis by blast
qed

text \<open>In a reachable state, the invocations of earlier batches have finished.\<close>

lemma earlier_batches_finished:
  assumes inv: "pool_inv (main_program packages) s"
    and j: "j \<in> set (queue s) \<union> set (running s) \<union> set (finished s)"
    and i: "i < length packages"
    and lt: "i div batch_size < j div batch_size"
  shows "i \<in> set (finished s)"
proof -
  from inv obtain pre where pre: "main_program packages = pre @ prog s"
    and jn: "set (joined pre) \<subseteq> set (finished s)"
    and sub: "set (queue s) \<union> set (running s) \<union> set (finished s) \<subseteq> set (submit_ids pre)"
    unfolding pool_inv_def by blast
  from j sub have "j \<in> set (submit_ids pre)" by blast
  from submitted_split [OF this] obtain a p b where ab: "pre = a @ ASubmit j p # b" by blast
  with pre have "main_program packages = a @ ASubmit j p # (b @ prog s)" by simp
  from results_before_submit [OF this i lt] have "i \<in> set (joined a)" .
  with ab have "i \<in> set (joined pre)" by (simp add: joined_append)
  with jn show ?thesis by blast
qed

lemma reachable_inv:
  "run W res (init (main_program packages)) evs = Some s \<Longrightarrow> pool_inv (main_program packages) s"
  by (rule pool_inv_run [OF _ pool_inv_init]) (simp_all add: submit_ids_main)

lemma execution_run:
  assumes "execution w device class_path package_name minutes throttle max_workers evs = Some s"
    and "packages_of w device package_name = Inr packages"
  shows "0 < max_workers
     \<and> run (nat max_workers) (task_result w device class_path packages minutes throttle)
         (init (main_program packages)) evs = Some s"
  using assms by (auto simp: execution_def split: if_splits)

section \<open>Example runs of the pool\<close>

lemma execution_five:
  "execution five_packages ''D1'' ''A:B:C'' ''all'' 5 500 1 (five_run @ Start 4 # [])
   = Some \<lparr>prog = [AResult 4, ASleep 10], raised = None, queue = [], running = [4],
            finished = [0, 1, 2, 3]\<rparr>"
  by (simp add: execution_def five_packages_list main_program_five init_def task_result_ok
      delay_def five_run_def)

lemma execution_serial_one:
  "execution two_packages ''D1'' ''A:B:C'' ''all'' 5 500 1 serial_run
     = Some \<lparr>prog = [], raised = None, queue = [], running = [], finished = [0, 1]\<rparr>"
  by (simp add: execution_def two_packages_list main_program_two init_def task_result_ok
      delay_def serial_run_def)

lemma done_is_stopped:
  "step W res \<lparr>prog = [], raised = r, queue = [], running = [], finished = f\<rparr> e = None"
  by (cases e) simp_all

section \<open>Unfinished invocations belong to one batch\<close>

lemma same_batch_unfinished:
  assumes inv: "pool_inv (main_program packages) s"
    and j: "j \<in> set (queue s) \<union> set (running s)"
    and j': "j' \<in> set (queue s) \<union> set (running s)"
  shows "j < length packages \<and> j div batch_size = j' div batch_size"
proof -
  from inv obtain pre where pre: "main_program packages = pre @ prog s"
    and sub: "set (queue s) \<union> set (running s) \<union> set (finished s) \<subseteq> set (submit_ids pre)"
    and dis: "distinct (queue s @ running s @ finished s)"
    unfolding pool_inv_def by blast
  have bound: "x < length packages" if "x \<in> set (queue s) \<union> set (running s)" for x
  proof -
    from that sub have "x \<in> set (submit_ids pre)" by blast
    then have "x \<in> set (submit_ids (main_program packages))"
      unfolding pre by (simp add: submit_ids_append)
    then show ?thesis by (simp add: submit_ids_main)
  qed
  have unfinished: "x \<notin> set (finished s)" if "x \<in> set (queue s) \<union> set (running s)" for x
    using that dis by auto
  have "\<not> j div batch_size < j' div batch_size"
  proof
    assume "j div batch_size < j' div batch_size"
    with inv have "j \<in> set (finished s)"
      by (intro earlier_batches_finished [of packages s j' j]) (use j' bound [OF j] in auto)
    with unfinished [OF j] show False by blast
  qed
  moreover have "\<not> j' div batch_size < j div batch_size"
  proof
    assume "j' div batch_size < j div batch_size"
    with inv have "j' \<in> set (finished s)"
      by (intro earlier_batches_finished [of packages s j j']) (use j bound [OF j'] in auto)
    with unfinished [OF j'] show False by blast
  qed
  ultimately show ?thesis using bound [OF j] by simp
qed

lemma unfinished_within_batch:
  assumes inv: "pool_inv (main_program packages) s"
    and q: "queue s \<noteq> []"
    and k: "k < length (batches packages)"
    and hd: "hd (queue s) \<in> set (task_ids (batches packages ! k))"
  shows "length (queue s) + length (running s) \<le> length (snd (batches packages ! k))"
proof -
  from q have h: "hd (queue s) \<in> set (queue s) \<union> set (running s)" by simp
  from hd task_ids_nth [OF k] have hk: "hd (queue s) div batch_size = k" by simp
  have "set (queue s @ running s) \<subseteq> set (task_ids (batches packages ! k))"
  proof
    fix x
    assume "x \<in> set (queue s @ running s)"
    then have x: "x \<in> set (queue s) \<union> set (running s)" by simp
    from same_batch_unfinished [OF inv x h] hk
    show "x \<in> set (task_ids (batches packages ! k))"
      by (simp add: task_ids_nth [OF k])
  qed
  moreover from inv have "distinct (queue s @ running s)"
    unfolding pool_inv_def by auto
  ultimately have "length (queue s @ running s) \<le> length (task_ids (batches packages ! k))"
    by (metis card_mono distinct_card List.finite_set card_length le_trans)
  then show ?thesis by (simp add: task_ids_def)
qed

section \<open>Progress and termination of the pool\<close>

lemma pool_known_init: "pool_known acts (init acts)"
  by (simp add: pool_known_def init_def)

lemma pool_known_step:
  assumes inv: "pool_known acts s" and st: "step W res s e = Some s'"
  shows "pool_known acts s'"
proof -
  from inv obtain pre where pre: "acts = pre @ prog s"
    and sub: "set (submit_ids pre) \<subseteq> set (queue s) \<union> set (running s) \<union> set (finished s)"
    unfolding pool_known_def by blast
  show ?thesis
  proof (cases e)
    case (Main a)
    with st have hd: "prog s = a # tl (prog s)" and ms: "main_step res s a = Some s'"
      by (auto split: if_splits)
    from pre hd have acts: "acts = (pre @ [a]) @ tl (prog s)" by simp
    from ms have s': "prog s' = tl (prog s) \<and> running s' = running s \<and> finished s' = finished s
        \<and> set (queue s') = set (queue s) \<union> set (submit_ids [a])"
      by (cases a) (auto split: if_splits)
    show ?thesis unfolding pool_known_def
      by (rule exI [of _ "pre @ [a]"]) (use acts sub s' in \<open>auto simp: submit_ids_append\<close>)
  next
    case (Raise x)
    with st have "s' = s\<lparr>raised := Some x\<rparr>"
      by (auto split: list.splits action.splits if_splits)
    with inv show ?thesis by (simp add: pool_known_def)
  next
    case (Start i)
    with st obtain q where q: "queue s = i # q"
      and s': "s' = s\<lparr>queue := q, running := running s @ [i]\<rparr>"
      by (cases "queue s") (auto split: if_splits)
    show ?thesis unfolding pool_known_def
      by (rule exI [of _ pre]) (use pre sub q in \<open>auto simp: s'\<close>)
  next
    case (Finish i)
    with st have r: "i \<in> set (running s)"
      and s': "s' = s\<lparr>running := removeAll i (running s), finished := finished s @ [i]\<rparr>"
      by (auto split: if_splits)
    show ?thesis unfolding pool_known_def
      by (rule exI [of _ pre]) (use pre sub r in \<open>auto simp: s'\<close>)
  qed
qed

lemma pool_known_run:
  "pool_known acts s \<Longrightarrow> run W res s evs = Some s' \<Longrightarrow> pool_known acts s'"
proof (induction evs arbitrary: s)
  case Nil
  then show ?case by simp
next
  case (Cons e evs)
  from Cons.prems(2) obtain s1 where s1: "step W res s e = Some s1"
    and r: "run W res s1 evs = Some s'"
    by (auto split: option.splits)
  from Cons.prems(1) s1 have "pool_known acts s1" by (rule pool_known_step)
  with Cons.IH r show ?case by blast
qed

lemma step_not_raised:
  assumes ok: "\<And>i. res i = Inr ()" and st: "step W res s e = Some s'" and r: "raised s = None"
  shows "raised s' = None"
proof (cases e)
  case (Main a)
  with st have "main_step res s a = Some s'" by (auto split: if_splits)
  with r show ?thesis by (cases a) (auto split: if_splits)
next
  case (Raise x)
  with st ok show ?thesis by (auto split: list.splits action.splits if_splits)
next
  case (Start i)
  with st r show ?thesis by (auto split: if_splits)
next
  case (Finish i)
  with st r show ?thesis by (auto split: if_splits)
qed

lemma run_not_raised:
  assumes ok: "\<And>i. res i = Inr ()"
  shows "run W res s evs = Some s' \<Longrightarrow> raised s = None \<Longrightarrow> raised s' = None"
proof (induction evs arbitrary: s)
  case Nil
  then show ?case by simp
next
  case (Cons e evs)
  from Cons.prems(1) obtain s1 where s1: "step W res s e = Some s1"
    and r: "run W res s1 evs = Some s'"
    by (auto split: option.splits)
  from step_not_raised [where res = res, OF ok s1 Cons.prems(2)] Cons.IH [OF r] show ?case by blast
qed

lemma step_work_left:
  assumes ok: "\<And>i. res i = Inr ()" and st: "step W res s e = Some s'"
  shows "work_left s' < work_left s"
proof (cases e)
  case (Main a)
  with st have hd: "prog s = a # tl (prog s)" and ms: "main_step res s a = Some s'"
    by (auto split: if_splits)
  from hd have l: "length (prog s) = Suc (length (tl (prog s)))" by (metis length_Cons)
  from ms l show ?thesis by (cases a) (auto simp: work_left_def split: if_splits)
next
  case (Raise x)
  with st ok show ?thesis by (auto split: list.splits action.splits if_splits)
next
  case (Start i)
  with st obtain q where "queue s = i # q" "s' = s\<lparr>queue := q, running := running s @ [i]\<rparr>"
    by (cases "queue s") (auto split: if_splits)
  then show ?thesis by (simp add: work_left_def)
next
  case (Finish i)
  with st have r: "i \<in> set (running s)"
    and s': "s' = s\<lparr>running := removeAll i (running s), finished := finished s @ [i]\<rparr>"
    by (auto split: if_splits)
  from r have "length (removeAll i (running s)) < length (running s)"
    by (rule length_removeAll_less)
  then show ?thesis by (simp add: work_left_def s')
qed

lemma run_work_left:
  assumes ok: "\<And>i. res i = Inr ()"
  shows "run W res s evs = Some s' \<Longrightarrow> length evs + work_left s' \<le> work_left s"
proof (induction evs arbitrary: s)
  case Nil
  then show ?case by simp
next
  case (Cons e evs)
  from Cons.prems obtain s1 where s1: "step W res s e = Some s1"
    and r: "run W res s1 evs = Some s'"
    by (auto split: option.splits)
  from step_work_left [where res = res, OF ok s1] Cons.IH [OF r] show ?case by simp
qed

lemma split_after_prefix:
  "xs @ ys = a @ x # b \<Longrightarrow> x \<notin> set xs \<Longrightarrow> \<exists>a'. a = xs @ a' \<and> ys = a' @ x # b"
proof -
  assume eq: "xs @ ys = a @ x # b" and nin: "x \<notin> set xs"
  then consider us where "xs = a @ us" "us @ ys = x # b"
    | us where "xs @ us = a" "ys = us @ x # b"
    by (auto simp: append_eq_append_conv2)
  then show ?thesis
  proof cases
    case 1
    with nin have "us = []" by (cases us) auto
    with 1 show ?thesis by simp
  next
    case 2
    then show ?thesis by blast
  qed
qed

lemma submits_before_results:
  assumes "batch_actions ib = a @ AResult i # b"
  shows "i \<in> set (submit_ids a)"
proof -
  let ?front = "map (\<lambda>package. ALog INFO (RunningPackage package)) (snd ib)
                @ map (\<lambda>(k, package). ASubmit k package) (zip (task_ids ib) (snd ib))"
  from assms have eq: "?front @ (map AResult (task_ids ib) @ [ASleep delay]) = a @ AResult i # b"
    by (simp add: batch_actions_def)
  have nin: "AResult i \<notin> set ?front" by auto
  from split_after_prefix [OF eq nin] obtain a'
    where a: "a = ?front @ a'" and r: "map AResult (task_ids ib) @ [ASleep delay] = a' @ AResult i # b"
    by blast
  from r have "AResult i \<in> set (map AResult (task_ids ib) @ [ASleep delay])"
    by simp
  then have "i \<in> set (task_ids ib)" by auto
  moreover have "submit_ids ?front = task_ids ib"
    by (simp add: submit_ids_append submit_ids_logs submit_ids_zip task_ids_def)
  ultimately have "i \<in> set (submit_ids ?front)" by (simp only:)
  then have "i \<in> set (submit_ids (?front @ a'))"
    by (simp only: submit_ids_append set_append Un_iff simp_thms)
  then show ?thesis unfolding a .
qed

lemma submit_before_result:
  assumes prog: "main_program packages = pre @ AResult i # rest"
  shows "i \<in> set (submit_ids pre)"
proof -
  from prog obtain pre' where pre: "pre = ALog INFO (PackageCount (length packages)) # pre'"
    and c: "concat (map batch_actions (batches packages)) = pre' @ AResult i # rest"
    by (cases pre) (auto simp: main_program_def)
  from concat_split [OF c] obtain yss a b zss
    where m: "map batch_actions (batches packages) = yss @ (a @ AResult i # b) # zss"
      and pre': "pre' = concat yss @ a"
    by blast
  from m obtain ib where "batch_actions ib = a @ AResult i # b"
    by (auto simp: map_eq_append_conv map_eq_Cons_conv)
  from submits_before_results [OF this] pre pre' show ?thesis
    by (simp add: submit_ids_append)
qed

text \<open>Some event is possible as long as the main thread has an action left.\<close>

lemma progress:
  assumes ok: "\<And>i. res i = Inr ()"
    and W: "0 < W"
    and known: "pool_known (main_program packages) s"
    and r: "raised s = None"
    and p: "prog s \<noteq> []"
  shows "\<exists>e. step W res s e \<noteq> None"
proof -
  from p obtain a rest where hd: "prog s = a # rest" by (cases "prog s") auto
  show ?thesis
  proof (cases a)
    case (ALog l m)
    with hd r have "step W res s (Main a) \<noteq> None" by simp
    then show ?thesis ..
  next
    case (ASubmit i pkg)
    with hd r have "step W res s (Main a) \<noteq> None" by simp
    then show ?thesis ..
  next
    case (ASleep n)
    with hd r have "step W res s (Main a) \<noteq> None" by simp
    then show ?thesis ..
  next
    case (AResult i)
    from known obtain pre where pre: "main_program packages = pre @ prog s"
      and sub: "set (submit_ids pre) \<subseteq> set (queue s) \<union> set (running s) \<union> set (finished s)"
      unfolding pool_known_def by blast
    from pre hd AResult have "main_program packages = pre @ AResult i # rest" by simp
    from submit_before_result [OF this] sub
    have i: "i \<in> set (queue s) \<union> set (running s) \<union> set (finished s)" by blast
    show ?thesis
    proof (cases "i \<in> set (finished s)")
      case True
      with hd r AResult ok have "step W res s (Main a) \<noteq> None" by simp
      then show ?thesis ..
    next
      case False
      show ?thesis
      proof (cases "running s")
        case (Cons x xs)
        then have "step W res s (Finish x) \<noteq> None" by simp
        then show ?thesis ..
      next
        case Nil
        with i False have "queue s \<noteq> []" by auto
        with Nil W have "step W res s (Start (hd (queue s))) \<noteq> None" by simp
        then show ?thesis ..
      qed
    qed
  qed
qed

lemma stopped_is_done:
  assumes ok: "\<And>i. res i = Inr ()"
    and W: "0 < W"
    and r: "run W res (init (main_program packages)) evs = Some s"
    and stop: "\<forall>e. step W res s e = None"
  shows "prog s = [] \<and> queue s = [] \<and> running s = [] \<and> set (finished s) = {0..<length packages}"
proof -
  from r have known: "pool_known (main_program packages) s"
    by (rule pool_known_run [OF pool_known_init])
  from r have inv: "pool_inv (main_program packages) s" by (rule reachable_inv)
  from run_not_raised [where res = res, OF ok r] have nr: "raised s = None" by (simp add: init_def)
  have p: "prog s = []"
  proof (rule ccontr)
    assume "prog s \<noteq> []"
    from progress [where res = res, OF ok W known nr this] obtain e where "step W res s e \<noteq> None" ..
    with stop show False by metis
  qed
  have ru: "running s = []"
  proof (cases "running s")
    case (Cons x xs)
    then have "step W res s (Finish x) \<noteq> None" by simp
    with stop show ?thesis by metis
  qed simp
  have q: "queue s = []"
  proof (rule ccontr)
    assume "queue s \<noteq> []"
    with ru W have "step W res s (Start (hd (queue s))) \<noteq> None" by simp
    with stop show False by metis
  qed
  from inv p obtain pre where "main_program packages = pre"
    and j: "set (joined pre) \<subseteq> set (finished s)"
    and sub: "set (queue s) \<union> set (running s) \<union> set (finished s) \<subseteq> set (submit_ids pre)"
    unfolding pool_inv_def by auto
  then have "set (finished s) = {0..<length packages}"
    by (auto simp: joined_main submit_ids_main)
  with p q ru show ?thesis by simp
qed

section \<open>A run in which every batch overlaps\<close>

lemma run_logs:
  "prog s = map (\<lambda>p. ALog l (f p)) ps @ rest \<Longrightarrow> raised s = None \<Longrightarrow>
     run W res s (map (\<lambda>p. Main (ALog l (f p))) ps) = Some (s\<lparr>prog := rest\<rparr>)"
proof (induction ps arbitrary: s)
  case Nil
  then show ?case by simp
next
  case (Cons p ps)
  let ?s1 = "s\<lparr>prog := map (\<lambda>p. ALog l (f p)) ps @ rest\<rparr>"
  from Cons.prems have "step W res s (Main (ALog l (f p))) = Some ?s1" by simp
  moreover from Cons.prems have "run W res ?s1 (map (\<lambda>p. Main (ALog l (f p))) ps)
      = Some (?s1\<lparr>prog := rest\<rparr>)"
    by (intro Cons.IH) simp_all
  ultimately show ?case by simp
qed

lemma run_submits:
  "prog s = map (\<lambda>(k, p). ASubmit k p) kps @ rest \<Longrightarrow> raised s = None \<Longrightarrow>
     run W res s (map (\<lambda>(k, p). Main (ASubmit k p)) kps)
       = Some (s\<lparr>prog := rest, queue := queue s @ map fst kps\<rparr>)"
proof (induction kps arbitrary: s)
  case Nil
  then show ?case by simp
next
  case (Cons kp kps)
  obtain k p where kp: "kp = (k, p)" by (cases kp)
  let ?s1 = "s\<lparr>prog := map (\<lambda>(k, p). ASubmit k p) kps @ rest, queue := queue s @ [k]\<rparr>"
  from Cons.prems kp have "step W res s (Main (ASubmit k p)) = Some ?s1" by simp
  moreover from Cons.prems have "run W res ?s1 (map (\<lambda>(k, p). Main (ASubmit k p)) kps)
      = Some (?s1\<lparr>prog := rest, queue := queue ?s1 @ map fst kps\<rparr>)"
    by (intro Cons.IH) simp_all
  ultimately show ?case using kp by simp
qed

lemma run_starts:
  "queue s = ids @ q \<Longrightarrow> length (running s) + length ids \<le> W \<Longrightarrow>
     run W res s (map Start ids) = Some (s\<lparr>queue := q, running := running s @ ids\<rparr>)"
proof (induction ids arbitrary: s)
  case Nil
  then show ?case by simp
next
  case (Cons i ids)
  let ?s1 = "s\<lparr>queue := ids @ q, running := running s @ [i]\<rparr>"
  from Cons.prems have "step W res s (Start i) = Some ?s1" by simp
  moreover from Cons.prems have "run W res ?s1 (map Start ids)
      = Some (?s1\<lparr>queue := q, running := running ?s1 @ ids\<rparr>)"
    by (intro Cons.IH) simp_all
  ultimately show ?case by simp
qed

lemma run_finishes:
  "running s = ids \<Longrightarrow> distinct ids \<Longrightarrow>
     run W res s (map Finish ids) = Some (s\<lparr>running := [], finished := finished s @ ids\<rparr>)"
proof (induction ids arbitrary: s)
  case Nil
  then show ?case by simp
next
  case (Cons i ids)
  let ?s1 = "s\<lparr>running := ids, finished := finished s @ [i]\<rparr>"
  from Cons.prems have "step W res s (Finish i) = Some ?s1" by simp
  moreover from Cons.prems have "run W res ?s1 (map Finish ids)
      = Some (?s1\<lparr>running := [], finished := finished ?s1 @ ids\<rparr>)"
    by (intro Cons.IH) simp_all
  ultimately show ?case by simp
qed

lemma run_results:
  "prog s = map AResult ids @ rest \<Longrightarrow> raised s = None \<Longrightarrow> set ids \<subseteq> set (finished s)
     \<Longrightarrow> (\<And>i. res i = Inr ()) \<Longrightarrow>
     run W res s (map (\<lambda>k. Main (AResult k)) ids) = Some (s\<lparr>prog := rest\<rparr>)"
proof (induction ids arbitrary: s)
  case Nil
  then show ?case by simp
next
  case (Cons i ids)
  let ?s1 = "s\<lparr>prog := map AResult ids @ rest\<rparr>"
  from Cons.prems have "step W res s (Main (AResult i)) = Some ?s1" by simp
  moreover from Cons.prems have "run W res ?s1 (map (\<lambda>k. Main (AResult k)) ids)
      = Some (?s1\<lparr>prog := rest\<rparr>)"
    by (intro Cons.IH) simp_all
  ultimately show ?case by simp
qed

lemma run_batch:
  assumes ok: "\<And>i. res i = Inr ()"
    and W: "length (snd ib) \<le> W"
  shows "run W res \<lparr>prog = batch_actions ib @ rest, raised = None, queue = [], running = [],
                    finished = F\<rparr> (batch_schedule ib)
         = Some \<lparr>prog = rest, raised = None, queue = [], running = [],
                  finished = F @ task_ids ib\<rparr>"
proof -
  let ?ids = "task_ids ib"
  let ?subs = "map (\<lambda>(k, package). ASubmit k package) (zip ?ids (snd ib))"
  let ?s0 = "\<lparr>prog = batch_actions ib @ rest, raised = None, queue = [], running = [],
              finished = F\<rparr>"
  let ?s1 = "\<lparr>prog = ?subs @ map AResult ?ids @ [ASleep delay] @ rest, raised = None,
              queue = [], running = [], finished = F\<rparr>"
  let ?s2 = "\<lparr>prog = map AResult ?ids @ [ASleep delay] @ rest, raised = None,
              queue = ?ids, running = [], finished = F\<rparr>"
  let ?s3 = "\<lparr>prog = map AResult ?ids @ [ASleep delay] @ rest, raised = None,
              queue = [], running = ?ids, finished = F\<rparr>"
  let ?s4 = "\<lparr>prog = map AResult ?ids @ [ASleep delay] @ rest, raised = None,
              queue = [], running = [], finished = F @ ?ids\<rparr>"
  let ?s5 = "\<lparr>prog = [ASleep delay] @ rest, raised = None,
              queue = [], running = [], finished = F @ ?ids\<rparr>"
  have len: "length ?ids = length (snd ib)" by (simp add: task_ids_def)
  have r1: "run W res ?s0 (map (\<lambda>package. Main (ALog INFO (RunningPackage package))) (snd ib))
      = Some ?s1"
    using run_logs [of ?s0 INFO RunningPackage "snd ib"
        "?subs @ map AResult ?ids @ [ASleep delay] @ rest" W res]
    by (simp add: batch_actions_def)
  have r2: "run W res ?s1 (map (\<lambda>(k, package). Main (ASubmit k package)) (zip ?ids (snd ib)))
      = Some ?s2"
    using run_submits [of ?s1 "zip ?ids (snd ib)" "map AResult ?ids @ [ASleep delay] @ rest" W res]
      len
    by simp
  have r3: "run W res ?s2 (map Start ?ids) = Some ?s3"
    using run_starts [of ?s2 ?ids "[]" W res] W len by simp
  have r4: "run W res ?s3 (map Finish ?ids) = Some ?s4"
    using run_finishes [of ?s3 ?ids W res] by (simp add: task_ids_def)
  have r5: "run W res ?s4 (map (\<lambda>k. Main (AResult k)) ?ids) = Some ?s5"
    using run_results [of ?s4 ?ids "[ASleep delay] @ rest" res W] ok by simp
  have r6: "run W res ?s5 [Main (ASleep delay)]
      = Some \<lparr>prog = rest, raised = None, queue = [], running = [], finished = F @ ?ids\<rparr>"
    by simp
  show ?thesis
    unfolding batch_schedule_def
    by (simp only: run_append r1 r2 r3 r4 r5 r6 option.case)
qed

lemma run_batches:
  assumes ok: "\<And>i. res i = Inr ()"
  shows "(\<And>ib. ib \<in> set bs \<Longrightarrow> length (snd ib) \<le> W) \<Longrightarrow>
     run W res \<lparr>prog = concat (map batch_actions bs), raised = None, queue = [], running = [],
                 finished = F\<rparr> (concat (map batch_schedule bs))
       = Some \<lparr>prog = [], raised = None, queue = [], running = [],
                finished = F @ concat (map task_ids bs)\<rparr>"
proof (induction bs arbitrary: F)
  case Nil
  show ?case by simp
next
  case (Cons ib bs)
  have "run W res \<lparr>prog = batch_actions ib @ concat (map batch_actions bs), raised = None,
                    queue = [], running = [], finished = F\<rparr> (batch_schedule ib)
      = Some \<lparr>prog = concat (map batch_actions bs), raised = None, queue = [], running = [],
               finished = F @ task_ids ib\<rparr>"
    by (rule run_batch [where res = res, OF ok]) (simp add: Cons.prems)
  moreover have "run W res \<lparr>prog = concat (map batch_actions bs), raised = None, queue = [],
                    running = [], finished = F @ task_ids ib\<rparr> (concat (map batch_schedule bs))
      = Some \<lparr>prog = [], raised = None, queue = [], running = [],
               finished = (F @ task_ids ib) @ concat (map task_ids bs)\<rparr>"
    by (rule Cons.IH) (simp add: Cons.prems)
  ultimately show ?case by (simp add: run_append)
qed

lemma run_overlap_schedule:
  assumes ok: "\<And>i. res i = Inr ()"
    and W: "\<And>ib. ib \<in> set (batches packages) \<Longrightarrow> length (snd ib) \<le> W"
  shows "run W res (init (main_program packages)) (overlap_schedule packages)
       = Some \<lparr>prog = [], raised = None, queue = [], running = [],
                finished = [0..<length packages]\<rparr>"
proof -
  have "run W res \<lparr>prog = concat (map batch_actions (batches packages)), raised = None,
                    queue = [], running = [], finished = []\<rparr>
          (concat (map batch_schedule (batches packages)))
      = Some \<lparr>prog = [], raised = None, queue = [], running = [],
               finished = [] @ concat (map task_ids (batches packages))\<rparr>"
    by (rule run_batches [where res = res, OF ok]) (rule W)
  then show ?thesis
    by (simp add: overlap_schedule_def main_program_def init_def task_ids_concat)
qed


lemma finish_in_schedule: "Finish j \<in> set (batch_schedule ib) \<Longrightarrow> j \<in> set (task_ids ib)"
  by (auto simp: batch_schedule_def)

lemma batch_schedule_overlapped:
  "i \<in> set (task_ids ib) \<Longrightarrow>
     Start i \<in> set (takeWhile (\<lambda>e. e \<notin> set (map Finish (task_ids ib))) (batch_schedule ib @ rest))"
proof -
  assume i: "i \<in> set (task_ids ib)"
  let ?P = "\<lambda>e. e \<notin> set (map Finish (task_ids ib))"
  let ?front = "map (\<lambda>package. Main (ALog INFO (RunningPackage package))) (snd ib)
     @ map (\<lambda>(k, package). Main (ASubmit k package)) (zip (task_ids ib) (snd ib))
     @ map Start (task_ids ib)"
  let ?later = "map Finish (task_ids ib) @ map (\<lambda>k. Main (AResult k)) (task_ids ib)
     @ [Main (ASleep delay)] @ rest"
  have split: "batch_schedule ib @ rest = ?front @ ?later"
    by (simp add: batch_schedule_def)
  have "?P e" if "e \<in> set ?front" for e using that by auto
  then have tw: "takeWhile ?P (?front @ ?later) = ?front @ takeWhile ?P ?later"
    by (rule takeWhile_append2)
  from i have "Start i \<in> set ?front" by simp
  then have "Start i \<in> set (?front @ takeWhile ?P ?later)"
    unfolding set_append by (rule UnI1)
  then show ?thesis unfolding split tw .
qed

lemma overlap_schedule_overlapped:
  assumes ib: "ib \<in> set (batches packages)"
  shows "overlapped (task_ids ib) (overlap_schedule packages)"
proof -
  let ?P = "\<lambda>e. e \<notin> set (map Finish (task_ids ib))"
  from split_list [OF ib] obtain bs1 bs2 where bs: "batches packages = bs1 @ ib # bs2" by blast
  let ?A = "Main (ALog INFO (PackageCount (length packages))) # concat (map batch_schedule bs1)"
  let ?rest = "concat (map batch_schedule bs2)"
  have sched: "overlap_schedule packages = ?A @ (batch_schedule ib @ ?rest)"
    by (simp add: overlap_schedule_def bs)
  have "distinct (concat (map task_ids (batches packages)))"
    by (simp add: task_ids_concat)
  then have disj: "set (concat (map task_ids bs1)) \<inter> set (task_ids ib) = {}"
    unfolding bs by auto
  have A: "?P e" if "e \<in> set ?A" for e
  proof
    assume "e \<in> set (map Finish (task_ids ib))"
    then obtain j where e: "e = Finish j" and j: "j \<in> set (task_ids ib)" by auto
    from that e obtain ib' where "ib' \<in> set bs1" "Finish j \<in> set (batch_schedule ib')"
      by auto
    then have "j \<in> set (concat (map task_ids bs1))"
      by (auto dest: finish_in_schedule)
    with disj j show False by blast
  qed
  have tw: "takeWhile ?P (?A @ (batch_schedule ib @ ?rest))
      = ?A @ takeWhile ?P (batch_schedule ib @ ?rest)"
    by (rule takeWhile_append2) (rule A)
  show ?thesis
    unfolding overlapped_def sched tw list_all_iff
    using batch_schedule_overlapped [of _ ib ?rest] by auto
qed

section \<open>The claims\<close>

text \<open>
  C1. For every package list, the loop of \<open>execute_adb_command\<close> cuts it into
  \<open>ceil(N / batch_size)\<close> consecutive batches (\<open>batch_size\<close> is 4), each of at most
  \<open>batch_size\<close> packages; the batches in loop order concatenate to the list itself, and
  the invocations are submitted in that same order, one per package.
\<close>

theorem C1_batches_partition:
  "length (batches packages) = (length packages + batch_size - 1) div batch_size
   \<and> (\<forall>ib \<in> set (batches packages). length (snd ib) \<le> batch_size)
   \<and> concat (map snd (batches packages)) = packages
   \<and> submitted (main_program packages) = packages"
  using length_batches [of packages] batch_bounded [of _ packages]
    concat_batches [of packages] submitted_main [of packages]
  by blast

theorem C1_batches_partition_witness:
  "length (batches [''a'', ''b'', ''c'', ''d'', ''e'']) = 2
   \<and> batches [''a'', ''b'', ''c'', ''d'', ''e''] = [(0, [''a'', ''b'', ''c'', ''d'']), (4, [''e''])]
   \<and> concat (map snd (batches [''a'', ''b'', ''c'', ''d'', ''e''])) = [''a'', ''b'', ''c'', ''d'', ''e'']"
  using C1_batches_partition [of "[''a'', ''b'', ''c'', ''d'', ''e'']"]
  by (simp add: batches_def batch_size_def py_slice_def range_step.simps)

text \<open>
  C2. In every event sequence that \<open>execute_adb_command\<close> can show, whenever an
  invocation of a later batch starts, every invocation of every earlier batch has
  already finished (whether its child succeeded or failed): its finish event stands
  before that start event.
\<close>

theorem C2_batches_sequential:
  assumes ex: "execution w device class_path package_name minutes throttle max_workers evs = Some s"
    and pk: "packages_of w device package_name = Inr packages"
    and nm: "n < m" and m: "m < length (batches packages)"
    and i: "i \<in> set (task_ids (batches packages ! n))"
    and j: "j \<in> set (task_ids (batches packages ! m))"
    and evs: "evs = es1 @ Start j # es2"
  shows "Finish i \<in> set es1"
proof -
  let ?W = "nat max_workers"
  let ?res = "task_result w device class_path packages minutes throttle"
  let ?acts = "main_program packages"
  from execution_run [OF ex pk] have r: "run ?W ?res (init ?acts) evs = Some s" by simp
  from r evs obtain s1 s2 where r1: "run ?W ?res (init ?acts) es1 = Some s1"
    and st: "step ?W ?res s1 (Start j) = Some s2"
    by (auto simp: run_append split: option.splits)
  from st have jq: "j \<in> set (queue s1)"
    by (cases "queue s1") (auto split: if_splits)
  from nm m have n: "n < length (batches packages)" by simp
  from i task_ids_nth [OF n] have il: "i < length packages" and id: "i div batch_size = n"
    by simp_all
  from j task_ids_nth [OF m] have jd: "j div batch_size = m" by simp
  from reachable_inv [OF r1] have "pool_inv ?acts s1" .
  moreover from jq have "j \<in> set (queue s1) \<union> set (running s1) \<union> set (finished s1)" by simp
  moreover from id jd nm have "i div batch_size < j div batch_size" by simp
  ultimately have "i \<in> set (finished s1)"
    using il by (intro earlier_batches_finished [of packages s1 j i])
  with run_finished [OF r1] show ?thesis by (simp add: init_def)
qed

theorem C2_batches_sequential_witness:
  "execution five_packages ''D1'' ''A:B:C'' ''all'' 5 500 1 (five_run @ Start 4 # [])
   = Some \<lparr>prog = [AResult 4, ASleep 10], raised = None, queue = [], running = [4],
            finished = [0, 1, 2, 3]\<rparr>
   \<and> packages_of five_packages ''D1'' ''all'' = Inr [''a'', ''b'', ''c'', ''d'', ''e'']
   \<and> batches [''a'', ''b'', ''c'', ''d'', ''e'']
       = [(0, [''a'', ''b'', ''c'', ''d'']), (4, [''e''])]
   \<and> Finish 3 \<in> set five_run"
proof -
  have i: "3 \<in> set (task_ids (batches [''a'', ''b'', ''c'', ''d'', ''e''] ! 0))"
    by (simp add: batches_five task_ids_def)
  have j: "4 \<in> set (task_ids (batches [''a'', ''b'', ''c'', ''d'', ''e''] ! 1))"
    by (simp add: batches_five task_ids_def)
  have m: "1 < length (batches [''a'', ''b'', ''c'', ''d'', ''e''])"
    by (simp add: batches_five)
  have nm: "(0::nat) < 1" by simp
  have f: "Finish 3 \<in> set five_run"
    by (rule C2_batches_sequential [OF execution_five five_packages_list nm m i j refl])
  show ?thesis
    by (intro conjI) (rule execution_five, rule five_packages_list, rule batches_five, rule f)
qed

text \<open>
  C3. A failing run never leaves \<open>run_monkey_command\<close> as an exception: the function
  returns normally on every child, and when the child could not be spawned, its output
  could not be read or it exited with a non-zero status, the last log entry is at ERROR
  level. Hence \<open>future.result()\<close> never raises in the main thread: whatever the children
  do, \<open>execute_adb_command\<close> returns normally after submitting one invocation per
  package, waiting for every one of them and going through every batch. In the pool,
  no run raises in the main thread, every run is finite, and a run can only come to a
  stop when the main thread has performed all its actions and every invocation of every
  batch has finished.
\<close>

theorem C3_failure_isolation:
  "fst (run_monkey_command sh device class_path package minutes throttle) = Inr ()
   \<and> (spawn_error (sh (monkey_cmd device class_path package minutes throttle)) \<noteq> None
        \<or> read_error (sh (monkey_cmd device class_path package minutes throttle)) \<noteq> None
        \<or> returncode (sh (monkey_cmd device class_path package minutes throttle)) \<noteq> 0
      \<longrightarrow> fst (last (snd (run_monkey_command sh device class_path package minutes throttle)))
            = ERROR)
   \<and> (0 < max_workers \<and> packages_of w device package_name = Inr packages
      \<longrightarrow> execute_adb_command w device class_path package_name minutes throttle max_workers
            = (Inr (), main_program packages)
          \<and> submitted (main_program packages) = packages
          \<and> joined (main_program packages) = [0..<length packages]
          \<and> length (sleeps (main_program packages)) = length (batches packages))
   \<and> (execution w device class_path package_name minutes throttle max_workers evs = Some s
        \<and> packages_of w device package_name = Inr packages
      \<longrightarrow> raised s = None
          \<and> length evs \<le> 3 * length (main_program packages)
          \<and> ((\<forall>e. step (nat max_workers)
                      (task_result w device class_path packages minutes throttle) s e = None)
             \<longrightarrow> prog s = [] \<and> queue s = [] \<and> running s = []
                 \<and> set (finished s) = {0..<length packages}))"
proof -
  let ?res = "task_result w device class_path packages minutes throttle"
  have pool: "raised s = None
          \<and> length evs \<le> 3 * length (main_program packages)
          \<and> ((\<forall>e. step (nat max_workers) ?res s e = None)
             \<longrightarrow> prog s = [] \<and> queue s = [] \<and> running s = []
                 \<and> set (finished s) = {0..<length packages})"
    if ex: "execution w device class_path package_name minutes throttle max_workers evs = Some s"
      and pk: "packages_of w device package_name = Inr packages"
  proof -
    have ok: "?res i = Inr ()" for i by (rule task_result_ok)
    from execution_run [OF ex pk] have W: "0 < nat max_workers"
      and r: "run (nat max_workers) ?res (init (main_program packages)) evs = Some s"
      by simp_all
    from run_not_raised [where res = ?res, OF ok r] have "raised s = None"
      by (simp add: init_def)
    moreover from run_work_left [where res = ?res, OF ok r]
    have "length evs \<le> 3 * length (main_program packages)"
      by (simp add: work_left_def init_def)
    moreover have "prog s = [] \<and> queue s = [] \<and> running s = []
                 \<and> set (finished s) = {0..<length packages}"
      if "\<forall>e. step (nat max_workers) ?res s e = None"
      using stopped_is_done [where res = ?res, OF ok W r that] .
    ultimately show ?thesis by blast
  qed
  from run_monkey_command_returns [of sh device class_path package minutes throttle]
    failure_logged [of sh device class_path package minutes throttle]
    execute_ok [of max_workers w device package_name packages class_path minutes throttle]
    submitted_main [of packages] joined_main [of packages] sleeps_main [of packages]
    pool
  show ?thesis by simp
qed

theorem C3_failure_isolation_witness:
  "run_monkey_command (monkey two_packages 0) ''D1'' ''A:B:C'' ''com.a'' 5 500
     = (Inr (),
        [(INFO, ExecCommand (monkey_cmd ''D1'' ''A:B:C'' ''com.a'' 5 500)),
         (INFO, RunParams 5 500),
         (INFO, OutputLine ''boom''),
         (ERROR, UnknownError none_read_message)])
   \<and> returncode (monkey two_packages 0 (monkey_cmd ''D1'' ''A:B:C'' ''com.a'' 5 500)) \<noteq> 0
   \<and> packages_of two_packages ''D1'' ''all'' = Inr [''com.a'', ''com.b'']
   \<and> execute_adb_command two_packages ''D1'' ''A:B:C'' ''all'' 5 500 1
       = (Inr (), main_program [''com.a'', ''com.b''])
   \<and> submitted (main_program [''com.a'', ''com.b'']) = [''com.a'', ''com.b'']
   \<and> joined (main_program [''com.a'', ''com.b'']) = [0, 1]
   \<and> execution two_packages ''D1'' ''A:B:C'' ''all'' 5 500 1 serial_run
       = Some \<lparr>prog = [], raised = None, queue = [], running = [], finished = [0, 1]\<rparr>
   \<and> length serial_run \<le> 3 * length (main_program [''com.a'', ''com.b''])
   \<and> (\<forall>e. step 1 (task_result two_packages ''D1'' ''A:B:C'' [''com.a'', ''com.b''] 5 500)
              \<lparr>prog = [], raised = None, queue = [], running = [], finished = [0, 1]\<rparr> e
            = None)"
proof -
  have r: "run_monkey_command (monkey two_packages 0) ''D1'' ''A:B:C'' ''com.a'' 5 500
     = (Inr (),
        [(INFO, ExecCommand (monkey_cmd ''D1'' ''A:B:C'' ''com.a'' 5 500)),
         (INFO, RunParams 5 500),
         (INFO, OutputLine ''boom''),
         (ERROR, UnknownError none_read_message)])"
    by (simp add: run_monkey_command_def Let_def try_body_def failing_process_def
        two_packages_def popen_stderr_def stream_read_def strip_def is_space_def)
  have rc: "returncode (monkey two_packages 0 (monkey_cmd ''D1'' ''A:B:C'' ''com.a'' 5 500)) \<noteq> 0"
    by (simp add: two_packages_def failing_process_def)
  have up: "[0..<length [''com.a'', ''com.b'']] = [0, 1]"
    by (simp add: upt_rec)
  show ?thesis
    using C3_failure_isolation [of "monkey two_packages 0" "''D1''" "''A:B:C''" "''com.a''" 5 500
        1 two_packages "''all''" "[''com.a'', ''com.b'']" serial_run
        "\<lparr>prog = [], raised = None, queue = [], running = [], finished = [0, 1]\<rparr>"]
      r rc two_packages_list [of "''D1''"] up execution_serial_one done_is_stopped
    by simp
qed

text \<open>
  C4. A child that exits with a non-zero status: the source means to read the child's
  remaining error text and log it with the package name at ERROR level. The code
  evaluated at such a child logs the message of an AttributeError instead, through the
  handler of unknown errors, because \<open>process.stderr\<close> is \<open>None\<close> when standard
  error is redirected into standard output.
\<close>

theorem C4_nonzero_exit_logs_attribute_error:
  "run_monkey_command (\<lambda>cmd. failing_process) ''D1'' ''A:B:C'' ''com.x'' 5 500 =
     (Inr (),
      [(INFO, ExecCommand (monkey_cmd ''D1'' ''A:B:C'' ''com.x'' 5 500)),
       (INFO, RunParams 5 500),
       (INFO, OutputLine ''boom''),
       (ERROR, UnknownError none_read_message)])
   \<and> (ERROR, PackageFailed ''com.x'' ''boom'')
       \<notin> set (snd (run_monkey_command (\<lambda>cmd. failing_process) ''D1'' ''A:B:C'' ''com.x'' 5 500))"
  by (simp add: run_monkey_command_def Let_def try_body_def failing_process_def
      popen_stderr_def stream_read_def strip_def is_space_def)

text \<open>
  C5, as stated, fails: \<open>execute_adb_command\<close> compares the package name with \<open>all\<close>
  itself (line 296). On a device listing two packages, the name \<open>all\<close> makes it submit
  those two packages and no invocation for \<open>all\<close>, while the name \<open>alx\<close> is submitted as
  it is.
\<close>

theorem C5_sentinel_counterexample:
  "submitted (snd (execute_adb_command two_packages ''D1'' ''A:B:C'' ''all'' 5 500 1))
     = [''com.a'', ''com.b'']
   \<and> ''all'' \<notin> set (submitted (snd (execute_adb_command two_packages ''D1'' ''A:B:C'' ''all''
                                       5 500 1)))
   \<and> submitted (snd (execute_adb_command two_packages ''D1'' ''A:B:C'' ''alx'' 5 500 1))
       = [''alx'']"
proof -
  have ne: "''alx'' \<noteq> ''all''" by simp
  show ?thesis
    using execute_ok [of 1 two_packages "''D1''" "''all''" "[''com.a'', ''com.b'']" "''A:B:C''" 5 500]
      execute_ok [of 1 two_packages "''D1''" "''alx''" "[''alx'']" "''A:B:C''" 5 500]
      two_packages_list [of "''D1''"] other_name_list [OF ne, of two_packages "''D1''"]
    by (simp add: submitted_main)
qed

text \<open>
  C5, amended. The sentinel is expanded inside \<open>execute_adb_command\<close>, before the loop:
  for the name \<open>all\<close> the function runs the loop over the packages parsed from the
  device's listing, for every other name over the singleton of that name. From there on
  nothing looks at a package name: renaming the packages of a list renames the actions
  of the loop and changes nothing else.
\<close>

theorem C5_sentinel_expanded_inside:
  "(0 < max_workers \<and> pm_list w (list_cmd device) = Inr out
      \<longrightarrow> execute_adb_command w device class_path ''all'' minutes throttle max_workers
            = (Inr (),
               main_program (map second_field
                 (filter (\<lambda>line. startswith line ''package:'') (splitlines out)))))
   \<and> (0 < max_workers \<and> package_name \<noteq> ''all''
      \<longrightarrow> execute_adb_command w device class_path package_name minutes throttle max_workers
            = (Inr (), main_program [package_name]))
   \<and> main_program (map f packages) = map (rename f) (main_program packages)"
proof -
  have a: "0 < max_workers \<and> pm_list w (list_cmd device) = Inr out
      \<longrightarrow> execute_adb_command w device class_path ''all'' minutes throttle max_workers
            = (Inr (),
               main_program (map second_field
                 (filter (\<lambda>line. startswith line ''package:'') (splitlines out))))"
    using execute_ok [of max_workers w device "''all''" _ class_path minutes throttle]
    by (simp add: packages_of_def parse_packages_eq)
  have b: "0 < max_workers \<and> package_name \<noteq> ''all''
      \<longrightarrow> execute_adb_command w device class_path package_name minutes throttle max_workers
            = (Inr (), main_program [package_name])"
    using execute_ok [of max_workers w device package_name "[package_name]" class_path minutes
        throttle]
    by (simp add: other_name_list)
  from a b main_program_map [of f packages] show ?thesis by blast
qed

theorem C5_sentinel_expanded_inside_witness:
  "execute_adb_command two_packages ''D1'' ''A:B:C'' ''all'' 5 500 1
     = (Inr (), main_program [''com.a'', ''com.b''])
   \<and> execute_adb_command two_packages ''D1'' ''A:B:C'' ''alx'' 5 500 1
     = (Inr (), main_program [''alx''])
   \<and> main_program [''all''] = map (rename (\<lambda>p. ''all'')) (main_program [''com.x''])"
proof -
  have pm: "pm_list two_packages (list_cmd ''D1'')
     = Inr (''package:com.a'' @ [CHR 0x0A] @ ''package:com.b'' @ [CHR 0x0A])"
    by (simp add: two_packages_def)
  have sl: "map second_field (filter (\<lambda>line. startswith line ''package:'')
              (splitlines (''package:com.a'' @ [CHR 0x0A] @ ''package:com.b'' @ [CHR 0x0A])))
            = [''com.a'', ''com.b'']"
    by (simp add: splitlines_def is_linebreak_def startswith_def second_field_def)
  have ne: "''alx'' \<noteq> ''all''" by simp
  show ?thesis
    using C5_sentinel_expanded_inside [of 1 two_packages "''D1''"
        "''package:com.a'' @ [CHR 0x0A] @ ''package:com.b'' @ [CHR 0x0A]"
        "''A:B:C''" 5 500 "''alx''" "\<lambda>p. ''all''" "[''com.x'']"]
      pm ne
    unfolding sl by simp
qed

text \<open>
  C6, as stated, fails: on a device that lists no package the function logs the number
  of packages (line 304), so one log line is emitted.
\<close>

theorem C6_empty_list_counterexample:
  "packages_of no_packages ''D1'' ''all'' = Inr []
   \<and> logged (snd (execute_adb_command no_packages ''D1'' ''A:B:C'' ''all'' 5 500 1))
       = [(INFO, PackageCount 0)]
   \<and> length (logged (snd (execute_adb_command no_packages ''D1'' ''A:B:C'' ''all'' 5 500 1)))
       \<noteq> 0"
  using execute_ok [of 1 no_packages "''D1''" "''all''" "[]" "''A:B:C''" 5 500]
    no_packages_list [of "''D1''"]
  by (simp add: main_program_Nil)

text \<open>
  C6, amended. For an empty package list the function returns normally after zero
  batches, zero invocations and zero sleeps; its only log line is the INFO line with the
  package count 0.
\<close>

theorem C6_empty_list:
  "0 < max_workers \<and> packages_of w device package_name = Inr []
   \<longrightarrow> execute_adb_command w device class_path package_name minutes throttle max_workers
         = (Inr (), [ALog INFO (PackageCount 0)])
       \<and> batches ([] :: string list) = []
       \<and> submitted (snd (execute_adb_command w device class_path package_name minutes throttle
                            max_workers)) = []
       \<and> sleeps (snd (execute_adb_command w device class_path package_name minutes throttle
                         max_workers)) = []
       \<and> logged (snd (execute_adb_command w device class_path package_name minutes throttle
                         max_workers)) = [(INFO, PackageCount 0)]"
  using execute_ok [of max_workers w device package_name "[]" class_path minutes throttle]
  by (simp add: main_program_Nil batches_Nil)

theorem C6_empty_list_witness:
  "(0::int) < 1 \<and> packages_of no_packages ''D1'' ''all'' = Inr []
   \<and> execute_adb_command no_packages ''D1'' ''A:B:C'' ''all'' 5 500 1
       = (Inr (), [ALog INFO (PackageCount 0)])"
  using C6_empty_list [of 1 no_packages "''D1''" "''all''" "''A:B:C''" 5 500]
    no_packages_list [of "''D1''"]
  by simp




text \<open>
  C8. The command of an invocation is a function of the five inputs alone (whatever the
  world does, the first log entry of \<open>run_monkey_command\<close> is that command); it
  contains the device, the class path, the package name and the decimal renderings of
  the minutes and the throttle verbatim, and ends with the fixed flags
  \<open>--pct-touch 30 -v -v\<close>.
\<close>

theorem C8_command_builder:
  "hd (snd (run_monkey_command sh device class_path package_name minutes throttle))
     = (INFO, ExecCommand (monkey_cmd device class_path package_name minutes throttle))
   \<and> sublist device (monkey_cmd device class_path package_name minutes throttle)
   \<and> sublist class_path (monkey_cmd device class_path package_name minutes throttle)
   \<and> sublist package_name (monkey_cmd device class_path package_name minutes throttle)
   \<and> sublist (str_int minutes) (monkey_cmd device class_path package_name minutes throttle)
   \<and> sublist (str_int throttle) (monkey_cmd device class_path package_name minutes throttle)
   \<and> suffix '' --pct-touch 30 -v -v'' (monkey_cmd device class_path package_name minutes throttle)"
proof -
  let ?c = "monkey_cmd device class_path package_name minutes throttle"
  have h: "hd (snd (run_monkey_command sh device class_path package_name minutes throttle))
     = (INFO, ExecCommand ?c)"
    by (simp add: run_monkey_command_def Let_def split: prod.splits sum.splits)
  have d: "sublist device ?c"
    unfolding monkey_cmd_def by (rule sublist_appendI)
  have c: "sublist class_path ?c"
    unfolding monkey_cmd_def sublist_def
    by (rule exI [of _ "''adb -s '' @ device @ '' shell CLASSPATH=''"]) auto
  have p: "sublist package_name ?c"
    unfolding monkey_cmd_def sublist_def
    by (rule exI [of _ "''adb -s '' @ device @ '' shell CLASSPATH='' @ class_path
         @ '' exec app_process /system/bin com.android.commands.monkey.Monkey -p ''"]) auto
  have m: "sublist (str_int minutes) ?c"
    unfolding monkey_cmd_def sublist_def
    by (rule exI [of _ "''adb -s '' @ device @ '' shell CLASSPATH='' @ class_path
         @ '' exec app_process /system/bin com.android.commands.monkey.Monkey -p '' @ package_name
         @ '' --agent reuseq --running-minutes ''"]) auto
  have t: "sublist (str_int throttle) ?c"
    unfolding monkey_cmd_def sublist_def
    by (rule exI [of _ "''adb -s '' @ device @ '' shell CLASSPATH='' @ class_path
         @ '' exec app_process /system/bin com.android.commands.monkey.Monkey -p '' @ package_name
         @ '' --agent reuseq --running-minutes '' @ str_int minutes @ '' --throttle ''"]) auto
  have s: "suffix '' --pct-touch 30 -v -v'' ?c"
    unfolding monkey_cmd_def suffix_def
    by (rule exI [of _ "''adb -s '' @ device @ '' shell CLASSPATH='' @ class_path
         @ '' exec app_process /system/bin com.android.commands.monkey.Monkey -p '' @ package_name
         @ '' --agent reuseq --running-minutes '' @ str_int minutes @ '' --throttle ''
         @ str_int throttle"]) simp
  from h d c p m t s show ?thesis by blast
qed

theorem C8_command_builder_witness:
  "monkey_cmd ''D1'' ''A:B:C'' ''com.x'' 5 500 =
     ''adb -s D1 shell CLASSPATH=A:B:C exec app_process /system/bin com.android.commands.monkey.Monkey -p com.x --agent reuseq --running-minutes 5 --throttle 500 --pct-touch 30 -v -v''
   \<and> sublist ''D1'' (monkey_cmd ''D1'' ''A:B:C'' ''com.x'' 5 500)
   \<and> sublist ''A:B:C'' (monkey_cmd ''D1'' ''A:B:C'' ''com.x'' 5 500)
   \<and> sublist ''com.x'' (monkey_cmd ''D1'' ''A:B:C'' ''com.x'' 5 500)
   \<and> sublist ''5'' (monkey_cmd ''D1'' ''A:B:C'' ''com.x'' 5 500)
   \<and> sublist ''500'' (monkey_cmd ''D1'' ''A:B:C'' ''com.x'' 5 500)
   \<and> suffix '' --pct-touch 30 -v -v'' (monkey_cmd ''D1'' ''A:B:C'' ''com.x'' 5 500)"
proof -
  have five: "str_int 5 = ''5''" and fh: "str_int 500 = ''500''"
    by (simp_all add: str_int_def str_nat.simps digit_char_def)
  show ?thesis
    using C8_command_builder [of "\<lambda>c. failing_process" "''D1''" "''A:B:C''" "''com.x''" 5 500]
      monkey_cmd_example
    unfolding five fh by blast
qed

text \<open>
  C9, as stated, fails: with five workers and a batch of two packages there is a run in
  which the first invocation has started and finished before the second one starts, so
  the two lifetimes do not overlap.
\<close>

theorem C9_serial_counterexample:
  "execution two_packages ''D1'' ''A:B:C'' ''all'' 5 500 5 serial_run
     = Some \<lparr>prog = [], raised = None, queue = [], running = [], finished = [0, 1]\<rparr>
   \<and> batches [''com.a'', ''com.b''] = [(0, [''com.a'', ''com.b''])]
   \<and> task_ids (0, [''com.a'', ''com.b'']) = [0, 1]
   \<and> \<not> overlapped [0, 1] serial_run"
  by (simp add: execution_def two_packages_list main_program_two init_def task_result_ok
      delay_def serial_run_def batches_two task_ids_def overlapped_def upt_rec)

text \<open>
  C9, amended. When the worker bound is at least the size of a batch, an invocation of
  that batch never waits for a worker: whenever one stands at the head of the pool's
  queue, fewer than \<open>max_workers\<close> invocations are running, and the pool can start it at
  once, whether or not a sibling has finished. And when the worker bound is at least the
  size of every batch, there is a run of the whole list in which, in every batch, all
  invocations start before any of them finishes. The pool allows the overlap and never
  serialises a batch; it does not fix the order of the start and finish events.
\<close>

theorem C9_free_worker:
  "(execution w device class_path package_name minutes throttle max_workers evs = Some s
      \<and> packages_of w device package_name = Inr packages
      \<and> queue s \<noteq> []
      \<and> k < length (batches packages)
      \<and> hd (queue s) \<in> set (task_ids (batches packages ! k))
      \<and> int (length (snd (batches packages ! k))) \<le> max_workers
    \<longrightarrow> length (running s) < nat max_workers
        \<and> step (nat max_workers) (task_result w device class_path packages minutes throttle) s
            (Start (hd (queue s)))
          = Some (s\<lparr>queue := tl (queue s), running := running s @ [hd (queue s)]\<rparr>))
   \<and> (0 < max_workers
      \<and> packages_of w device package_name = Inr packages
      \<and> (\<forall>ib \<in> set (batches packages). int (length (snd ib)) \<le> max_workers)
    \<longrightarrow> execution w device class_path package_name minutes throttle max_workers
          (overlap_schedule packages)
          = Some \<lparr>prog = [], raised = None, queue = [], running = [],
                   finished = [0..<length packages]\<rparr>
        \<and> (\<forall>ib \<in> set (batches packages).
              overlapped (task_ids ib) (overlap_schedule packages)))"
proof -
  let ?res = "task_result w device class_path packages minutes throttle"
  have free: "length (running s) < nat max_workers
        \<and> step (nat max_workers) ?res s (Start (hd (queue s)))
          = Some (s\<lparr>queue := tl (queue s), running := running s @ [hd (queue s)]\<rparr>)"
    if ex: "execution w device class_path package_name minutes throttle max_workers evs = Some s"
      and pk: "packages_of w device package_name = Inr packages"
      and q: "queue s \<noteq> []"
      and k: "k < length (batches packages)"
      and hd: "hd (queue s) \<in> set (task_ids (batches packages ! k))"
      and W: "int (length (snd (batches packages ! k))) \<le> max_workers"
  proof -
    from execution_run [OF ex pk]
    have "run (nat max_workers) ?res (init (main_program packages)) evs = Some s"
      by simp
    then have "pool_inv (main_program packages) s" by (rule reachable_inv)
    from unfinished_within_batch [OF this q k hd] q W
    have "length (running s) < nat max_workers"
      by (cases "queue s") auto
    with q show ?thesis by simp
  qed
  have sched: "execution w device class_path package_name minutes throttle max_workers
          (overlap_schedule packages)
          = Some \<lparr>prog = [], raised = None, queue = [], running = [],
                   finished = [0..<length packages]\<rparr>
        \<and> (\<forall>ib \<in> set (batches packages).
              overlapped (task_ids ib) (overlap_schedule packages))"
    if W: "0 < max_workers"
      and pk: "packages_of w device package_name = Inr packages"
      and fit: "\<forall>ib \<in> set (batches packages). int (length (snd ib)) \<le> max_workers"
  proof -
    have ok: "?res i = Inr ()" for i by (rule task_result_ok)
    have "run (nat max_workers) ?res (init (main_program packages)) (overlap_schedule packages)
       = Some \<lparr>prog = [], raised = None, queue = [], running = [],
                finished = [0..<length packages]\<rparr>"
      by (rule run_overlap_schedule [where res = ?res, OF ok]) (use fit in auto)
    with W pk have "execution w device class_path package_name minutes throttle max_workers
          (overlap_schedule packages)
          = Some \<lparr>prog = [], raised = None, queue = [], running = [],
                   finished = [0..<length packages]\<rparr>"
      by (simp add: execution_def)
    with overlap_schedule_overlapped [of _ packages] show ?thesis by blast
  qed
  from free sched show ?thesis by blast
qed

theorem C9_free_worker_witness:
  "execution two_packages ''D1'' ''A:B:C'' ''all'' 5 500 5 overlapping_prefix
     = Some \<lparr>prog = [AResult 0, AResult 1, ASleep 10], raised = None, queue = [1],
              running = [0], finished = []\<rparr>
   \<and> batches [''com.a'', ''com.b''] = [(0, [''com.a'', ''com.b''])]
   \<and> step 5 (task_result two_packages ''D1'' ''A:B:C'' [''com.a'', ''com.b''] 5 500)
        \<lparr>prog = [AResult 0, AResult 1, ASleep 10], raised = None, queue = [1],
           running = [0], finished = []\<rparr> (Start 1)
      = Some \<lparr>prog = [AResult 0, AResult 1, ASleep 10], raised = None, queue = [],
                running = [0, 1], finished = []\<rparr>
   \<and> overlap_schedule [''com.a'', ''com.b'']
      = [Main (ALog INFO (PackageCount 2)),
         Main (ALog INFO (RunningPackage ''com.a'')), Main (ALog INFO (RunningPackage ''com.b'')),
         Main (ASubmit 0 ''com.a''), Main (ASubmit 1 ''com.b''),
         Start 0, Start 1, Finish 0, Finish 1,
         Main (AResult 0), Main (AResult 1), Main (ASleep 10)]
   \<and> execution two_packages ''D1'' ''A:B:C'' ''all'' 5 500 5
        (overlap_schedule [''com.a'', ''com.b''])
      = Some \<lparr>prog = [], raised = None, queue = [], running = [], finished = [0, 1]\<rparr>
   \<and> overlapped [0, 1] (overlap_schedule [''com.a'', ''com.b''])"
proof -
  let ?s = "\<lparr>prog = [AResult 0, AResult 1, ASleep 10], raised = None, queue = [1],
              running = [0], finished = []\<rparr>"
  have ex: "execution two_packages ''D1'' ''A:B:C'' ''all'' 5 500 5 overlapping_prefix = Some ?s"
    by (simp add: execution_def two_packages_list main_program_two init_def task_result_ok
        delay_def overlapping_prefix_def)
  have q: "queue ?s \<noteq> []" by simp
  have k: "0 < length (batches [''com.a'', ''com.b''])" by (simp add: batches_two)
  have hd: "hd (queue ?s) \<in> set (task_ids (batches [''com.a'', ''com.b''] ! 0))"
    by (simp add: batches_two task_ids_def)
  have W: "int (length (snd (batches [''com.a'', ''com.b''] ! 0))) \<le> 5"
    by (simp add: batches_two)
  have fit: "\<forall>ib \<in> set (batches [''com.a'', ''com.b'']). int (length (snd ib)) \<le> 5"
    by (simp add: batches_two)
  have sch: "overlap_schedule [''com.a'', ''com.b'']
      = [Main (ALog INFO (PackageCount 2)),
         Main (ALog INFO (RunningPackage ''com.a'')), Main (ALog INFO (RunningPackage ''com.b'')),
         Main (ASubmit 0 ''com.a''), Main (ASubmit 1 ''com.b''),
         Start 0, Start 1, Finish 0, Finish 1,
         Main (AResult 0), Main (AResult 1), Main (ASleep 10)]"
    by (simp add: overlap_schedule_def batches_two batch_schedule_def task_ids_def upt_rec
        delay_def)
  have up: "[0..<length [''com.a'', ''com.b'']] = [0, 1]" by (simp add: upt_rec)
  have ids: "task_ids (0, [''com.a'', ''com.b'']) = [0, 1]" by (simp add: task_ids_def upt_rec)
  note C = C9_free_worker [of two_packages "''D1''" "''A:B:C''" "''all''" 5 500 5
      overlapping_prefix ?s "[''com.a'', ''com.b'']" 0]
  from C ex two_packages_list [of "''D1''"] q k hd W
  have a: "step 5 (task_result two_packages ''D1'' ''A:B:C'' [''com.a'', ''com.b''] 5 500) ?s (Start 1)
      = Some \<lparr>prog = [AResult 0, AResult 1, ASleep 10], raised = None, queue = [],
                running = [0, 1], finished = []\<rparr>"
    by simp
  from C two_packages_list [of "''D1''"] fit
  have b: "execution two_packages ''D1'' ''A:B:C'' ''all'' 5 500 5
        (overlap_schedule [''com.a'', ''com.b''])
      = Some \<lparr>prog = [], raised = None, queue = [], running = [], finished = [0, 1]\<rparr>
    \<and> overlapped [0, 1] (overlap_schedule [''com.a'', ''com.b''])"
    unfolding up by (simp add: batches_two ids)
  from ex batches_two [of "''com.a''" "''com.b''"] a sch b show ?thesis by blast
qed

text \<open>
  C10. For the name \<open>all\<close> the package list is, for each line of the listing's output
  that starts with \<open>package:\<close>, in output order, the second colon-separated field of that
  line (indexing the split line at 1 never fails on such a line); for every other name
  it is the singleton of that name, which gives one batch with one invocation.
\<close>

theorem C10_package_list:
  "(pm_list w (list_cmd device) = Inr out
      \<longrightarrow> packages_of w device ''all''
            = Inr (map second_field
                     (filter (\<lambda>line. startswith line ''package:'') (splitlines out))))
   \<and> (startswith line ''package:''
      \<longrightarrow> py_index (split_on CHR '':'' line) 1 = Inr (second_field line))
   \<and> (package_name \<noteq> ''all''
      \<longrightarrow> packages_of w device package_name = Inr [package_name]
          \<and> batches [package_name] = [(0, [package_name])]
          \<and> (0 < max_workers
             \<longrightarrow> submitted (snd (execute_adb_command w device class_path package_name minutes
                                    throttle max_workers)) = [package_name]))"
proof -
  have a: "pm_list w (list_cmd device) = Inr out
      \<longrightarrow> packages_of w device ''all''
            = Inr (map second_field
                     (filter (\<lambda>line. startswith line ''package:'') (splitlines out)))"
    by (simp add: packages_of_def parse_packages_eq)
  have b: "startswith line ''package:''
      \<longrightarrow> py_index (split_on CHR '':'' line) 1 = Inr (second_field line)"
    using package_field [of line] by blast
  have c: "package_name \<noteq> ''all''
      \<longrightarrow> packages_of w device package_name = Inr [package_name]
          \<and> batches [package_name] = [(0, [package_name])]
          \<and> (0 < max_workers
             \<longrightarrow> submitted (snd (execute_adb_command w device class_path package_name minutes
                                    throttle max_workers)) = [package_name])"
    using execute_ok [of max_workers w device package_name "[package_name]" class_path minutes
        throttle]
    by (simp add: other_name_list batches_single submitted_main)
  from a b c show ?thesis by blast
qed

theorem C10_package_list_witness:
  "packages_of two_packages ''D1'' ''all'' = Inr [''com.a'', ''com.b'']
   \<and> py_index (split_on CHR '':'' ''package:com.a:rest'') 1 = Inr ''com.a''
   \<and> packages_of two_packages ''D1'' ''com.x'' = Inr [''com.x'']
   \<and> batches [''com.x''] = [(0, [''com.x''])]
   \<and> submitted (snd (execute_adb_command two_packages ''D1'' ''A:B:C'' ''com.x'' 5 500 1))
       = [''com.x'']"
proof -
  have pm: "pm_list two_packages (list_cmd ''D1'')
     = Inr (''package:com.a'' @ [CHR 0x0A] @ ''package:com.b'' @ [CHR 0x0A])"
    by (simp add: two_packages_def)
  have sl: "map second_field (filter (\<lambda>line. startswith line ''package:'')
              (splitlines (''package:com.a'' @ [CHR 0x0A] @ ''package:com.b'' @ [CHR 0x0A])))
            = [''com.a'', ''com.b'']"
    by (simp add: splitlines_def is_linebreak_def startswith_def second_field_def)
  have sw: "startswith ''package:com.a:rest'' ''package:''"
    by (simp add: startswith_def)
  have sf: "second_field ''package:com.a:rest'' = ''com.a''"
    by (simp add: second_field_def)
  have ne: "''com.x'' \<noteq> ''all''" by simp
  show ?thesis
    using C10_package_list [of two_packages "''D1''"
        "''package:com.a'' @ [CHR 0x0A] @ ''package:com.b'' @ [CHR 0x0A]"
        "''package:com.a:rest''" "''com.x''" 1 "''A:B:C''" 5 500]
      pm sw ne
    unfolding sl sf by simp
qed

end
